theory Spec2Isabelle
  imports Main "HOL-Library.Signed_Division" "HOL-Library.Sublist"
    "HOL-Library.Char_ord" "HOL-Library.List_Lexorder"
begin

section \<open>Numbers and strings of the program\<close>

text \<open>
  The program is a TypeScript module (\<^verbatim>\<open>src/App.tsx\<close>). Its \<^verbatim>\<open>number\<close> values are
  modelled by the two cases the code itself distinguishes with \<^verbatim>\<open>Number.isInteger\<close>:
  an integral number, carried as a mathematical integer, and any other number (a
  fraction, \<^verbatim>\<open>NaN\<close>, an infinity). Integer arithmetic of the program (\<^verbatim>\<open>i * i\<close>,
  \<^verbatim>\<open>n % i\<close>, \<^verbatim>\<open>n / i\<close> on an exact divisor) is exact on doubles up to \<open>2 ^ 53\<close>; the
  model is the program on that range.

  Strings are lists of 8-bit characters. The three characters of the source text that lie
  outside ASCII are kept as the bytes the source file holds for them (UTF-8); the excerpts
  of the source below write them \<^verbatim>\<open><times>\<close>, \<^verbatim>\<open><dash>\<close> and \<^verbatim>\<open><arrow>\<close>.
\<close>

datatype number = Integer int | NonInteger

definition times_sign :: string where
  \<comment> \<open>U+00D7, the multiplication sign of the explanation\<close>
  "times_sign = [CHR 0xC3, CHR 0x97]"

definition em_dash :: string where
  \<comment> \<open>U+2014\<close>
  "em_dash = [CHR 0xE2, CHR 0x80, CHR 0x94]"

definition right_arrow :: string where
  \<comment> \<open>U+2192\<close>
  "right_arrow = [CHR 0xE2, CHR 0x86, CHR 0x92]"

definition digit_char :: "nat \<Rightarrow> char" where
  "digit_char d = char_of (48 + d)"

function digits :: "nat \<Rightarrow> string" where
  "digits n = (if n < 10 then [digit_char n] else digits (n div 10) @ [digit_char (n mod 10)])"
  by pat_completeness auto
termination
  by (relation "measure (\<lambda>n. n)") auto

declare digits.simps [simp del]

definition String_int :: "int \<Rightarrow> string" where
  \<comment> \<open>\<^verbatim>\<open>String(n)\<close> and \<^verbatim>\<open>`${n}`\<close> for an integral number\<close>
  "String_int n = (if n < 0 then CHR ''-'' # digits (nat (- n)) else digits (nat n))"

section \<open>The composite check\<close>

text \<open>
  \<^verbatim>\<open>
  function isCompositeProduct(n: number): { result: boolean; explanation: string } {
    if (!Number.isInteger(n) || n <= 3) {
      return { result: false,
               explanation: "Must be an integer greater than 3 (smallest product is 2*2)." };
    }
    for (let i = 2; i * i <= n; i++) {
      if (n % i === 0) {
        const other = n / i;
        return { result: true, explanation: `${n} = ${i} <times> ${other}` };
      }
    }
    return { result: false,
             explanation: `${n} is prime <dash> it cannot be expressed as product of two integers > 1.` };
  }
  \<close>
  The \<^verbatim>\<open>for\<close> loop is the recursive function \<open>scan\<close>, whose argument \<open>i\<close> is the loop
  variable; \<^verbatim>\<open>%\<close> is the truncating remainder \<open>smod\<close>, and \<^verbatim>\<open>n / i\<close> is evaluated only
  where the remainder is zero, so it is the exact quotient.
\<close>

record check_result =
  result :: bool
  explanation :: string

definition too_small_msg :: string where
  "too_small_msg = ''Must be an integer greater than 3 (smallest product is 2*2).''"

definition prime_msg :: "int \<Rightarrow> string" where
  "prime_msg n = String_int n @ '' is prime '' @ em_dash @
     '' it cannot be expressed as product of two integers > 1.''"

definition product_msg :: "int \<Rightarrow> int \<Rightarrow> int \<Rightarrow> string" where
  "product_msg n i other =
     String_int n @ '' = '' @ String_int i @ '' '' @ times_sign @ '' '' @ String_int other"

function scan :: "int \<Rightarrow> int \<Rightarrow> check_result" where
  "scan n i =
     (if i * i \<le> n then
        (if n smod i = 0 then
           (let other = n div i in \<lparr>result = True, explanation = product_msg n i other\<rparr>)
         else scan n (i + 1))
      else \<lparr>result = False, explanation = prime_msg n\<rparr>)"
  by pat_completeness auto
termination
proof (relation "measure (\<lambda>(n, i). nat (n + 1 - i))")
  show "wf (measure (\<lambda>(n, i). nat (n + 1 - i)))" by simp
next
  fix n i :: int
  assume le: "i * i \<le> n"
  have "i \<le> i * i"
  proof (cases "i \<le> 0")
    case True
    have "0 \<le> i * i" by simp
    with True show ?thesis by linarith
  next
    case False
    then have "1 \<le> i" by simp
    then have "i * 1 \<le> i * i" by (intro mult_left_mono) auto
    then show ?thesis by simp
  qed
  with le have "i \<le> n" by linarith
  then show "((n, i + 1), (n, i)) \<in> measure (\<lambda>(n, i). nat (n + 1 - i))" by simp
qed

declare scan.simps [simp del]

fun isCompositeProduct :: "number \<Rightarrow> check_result" where
  "isCompositeProduct NonInteger = \<lparr>result = False, explanation = too_small_msg\<rparr>"
| "isCompositeProduct (Integer n) =
     (if n \<le> 3 then \<lparr>result = False, explanation = too_small_msg\<rparr> else scan n 2)"

section \<open>Records, command runs and the application state\<close>

text \<open>
  \<^verbatim>\<open>
  type RecordItem = { id: string; label?: string; value: number; createdAt: string };
  type CommandRun = { id: string; recordId: string | null; command: string;
                      output: string; startedAt: string };
  \<close>
  The fields carry a prefix (\<open>r_\<close>, \<open>c_\<close>) because both types have an \<open>id\<close>. An
  optional or nullable field is an \<open>option\<close>. A stored record holds an integral value:
  \<open>handleCreate\<close> stores nothing else. The state of the component is the pair of its two
  collections, \<^verbatim>\<open>records\<close> and \<^verbatim>\<open>commands\<close>; the drawer, the selection and the
  query text are presentation state and are left out.
\<close>

record RecordItem =
  r_id :: string
  r_label :: "string option"
  r_value :: int
  r_createdAt :: string

record CommandRun =
  c_id :: string
  c_recordId :: "string option"
  c_command :: string
  c_output :: string
  c_startedAt :: string

record app =
  records :: "RecordItem list"
  commands :: "CommandRun list"

datatype notification =
    Note_error string
  | Note_success string string
  | Note_info string string

subsection \<open>Library operations on strings and arrays\<close>

text \<open>
  \<^verbatim>\<open>toLowerCase\<close> maps the ASCII capitals to their small letters and \<^verbatim>\<open>trim\<close> strips the
  ASCII white space (tab, line feed, vertical tab, form feed, carriage return, space) at
  both ends; the model is the program on ASCII text. \<^verbatim>\<open>s.includes(q)\<close> holds when \<open>q\<close>
  occurs in \<open>s\<close> as a contiguous block. \<^verbatim>\<open>join\<close> puts the separator between
  neighbours, and \<^verbatim>\<open>slice(0, k)\<close> is \<open>take k\<close>.
\<close>

definition toLowerCase_char :: "char \<Rightarrow> char" where
  "toLowerCase_char c =
     (let k = (of_char c :: nat) in if 65 \<le> k \<and> k \<le> 90 then char_of (k + 32) else c)"

definition toLowerCase :: "string \<Rightarrow> string" where
  "toLowerCase s = map toLowerCase_char s"

definition is_space :: "char \<Rightarrow> bool" where
  "is_space c \<longleftrightarrow> (of_char c :: nat) \<in> {9, 10, 11, 12, 13, 32}"

definition trim :: "string \<Rightarrow> string" where
  "trim s = rev (dropWhile is_space (rev (dropWhile is_space s)))"

definition str_includes :: "string \<Rightarrow> string \<Rightarrow> bool" where
  "str_includes s q \<longleftrightarrow> sublist q s"

fun join :: "string \<Rightarrow> string list \<Rightarrow> string" where
  "join sep [] = []"
| "join sep [x] = x"
| "join sep (x # y # ys) = x @ sep @ join sep (y # ys)"

definition uid :: "string \<Rightarrow> string \<Rightarrow> string" where
  \<comment> \<open>\<^verbatim>\<open>`${prefix}_${Math.random().toString(36).slice(2, 9)}`\<close>; the random tail is an input\<close>
  "uid pfx tail = pfx @ ''_'' @ tail"

subsection \<open>The filtered list\<close>

text \<open>
  \<^verbatim>\<open>
  const filtered = useMemo(() => {
    const q = query.trim().toLowerCase();
    if (!q) return records;
    return records.filter((r) => {
      return (
        r.label?.toLowerCase().includes(q) ||
        String(r.value).includes(q) ||
        r.id.toLowerCase().includes(q)
      );
    });
  }, [query, records]);
  \<close>
\<close>

definition matches :: "string \<Rightarrow> RecordItem \<Rightarrow> bool" where
  "matches q r \<longleftrightarrow>
     (case r_label r of None \<Rightarrow> False | Some l \<Rightarrow> str_includes (toLowerCase l) q) \<or>
     str_includes (String_int (r_value r)) q \<or>
     str_includes (toLowerCase (r_id r)) q"

definition filtered :: "string \<Rightarrow> RecordItem list \<Rightarrow> RecordItem list" where
  "filtered query recs =
     (let q = toLowerCase (trim query) in
      if q = [] then recs else filter (matches q) recs)"

subsection \<open>Creating and deleting records\<close>

text \<open>
  \<^verbatim>\<open>
  const handleCreate = async (values: { label?: string; value: number }) => {
    const num = Number(values.value);
    if (!Number.isInteger(num)) {
      notification.error({ message: "Value must be an integer" });
      return;
    }
    const item: RecordItem = {
      id: uid("rec"),
      label: values.label?.trim() || undefined,
      value: num,
      createdAt: new Date().toISOString(),
    };
    setRecords((s) => [item, ...s]);
    form.resetFields();
    notification.success({ message: "Record created", description: `ID: ${item.id}` });
  };
  \<close>
  The random tail of the identifier and the clock reading are inputs. The value arrives as
  a \<^verbatim>\<open>number\<close>, as the signature says. The result is the notification shown and the
  state after the call.
\<close>

definition normalise_label :: "string option \<Rightarrow> string option" where
  \<comment> \<open>\<^verbatim>\<open>values.label?.trim() || undefined\<close>\<close>
  "normalise_label l =
     (case l of None \<Rightarrow> None | Some s \<Rightarrow> (if trim s = [] then None else Some (trim s)))"

fun handleCreate :: "string \<Rightarrow> string \<Rightarrow> string option \<Rightarrow> number \<Rightarrow> app \<Rightarrow> notification \<times> app" where
  "handleCreate tail now lbl NonInteger st = (Note_error ''Value must be an integer'', st)"
| "handleCreate tail now lbl (Integer num) st =
     (let item = \<lparr>r_id = uid ''rec'' tail, r_label = normalise_label lbl,
                  r_value = num, r_createdAt = now\<rparr>
      in (Note_success ''Record created'' (''ID: '' @ r_id item),
          st\<lparr>records := item # records st\<rparr>))"

text \<open>
  \<^verbatim>\<open>
  const handleDelete = (id: string) => {
    setRecords((s) => s.filter((r) => r.id !== id));
    // remove related command history optionally
    setCommands((s) => s.filter((c) => c.recordId !== id));
    notification.info({ message: "Record deleted", description: id });
  };
  \<close>
\<close>

definition handleDelete :: "string \<Rightarrow> app \<Rightarrow> notification \<times> app" where
  "handleDelete ident st =
     (Note_info ''Record deleted'' ident,
      st\<lparr>records := filter (\<lambda>r. r_id r \<noteq> ident) (records st),
         commands := filter (\<lambda>c. c_recordId c \<noteq> Some ident) (commands st)\<rparr>)"

subsection \<open>Running a command\<close>

text \<open>
  \<^verbatim>\<open>
  const runCommand = (opts: { recordId?: string | null; command: string }) => {
    const id = uid("cmd");
    const started = new Date().toISOString();
    let output = "";
    if (opts.command === "check" && opts.recordId) {
      const rec = records.find((r) => r.id === opts.recordId);
      if (!rec) output = "Record not found (it may have been deleted).";
      else {
        const res = isCompositeProduct(rec.value);
        output = `${res.result ? "YES" : "NO"}: ${res.explanation}`;
      }
    } else if (opts.command === "check:all") {
      output = records
        .map((r) => {
          const res = isCompositeProduct(r.value);
          return `${r.id} (${r.value}) <arrow> ${res.result ? "YES" : "NO"}: ${res.explanation}`;
        })
        .join("\n\n");
    } else {
      output = `Unknown command: ${opts.command}`;
    }
    const cmd: CommandRun = { id, recordId: opts.recordId ?? null, command: opts.command,
                              output, startedAt: started };
    setCommands((s) => [cmd, ...s].slice(0, 200));
    ...
  };
  \<close>
  An absent \<^verbatim>\<open>recordId\<close> (\<^verbatim>\<open>undefined\<close> or \<^verbatim>\<open>null\<close>) is \<open>None\<close>. The test
  \<^verbatim>\<open>opts.recordId\<close> is JavaScript truthiness: a present, non-empty string.
\<close>

definition truthy :: "string option \<Rightarrow> bool" where
  "truthy s \<longleftrightarrow> (case s of None \<Rightarrow> False | Some t \<Rightarrow> t \<noteq> [])"

definition yes_no :: "check_result \<Rightarrow> string" where
  "yes_no res = (if result res then ''YES'' else ''NO'')"

definition check_line :: "RecordItem \<Rightarrow> string" where
  "check_line r =
     (let res = isCompositeProduct (Integer (r_value r))
      in yes_no res @ '': '' @ explanation res)"

definition check_all_line :: "RecordItem \<Rightarrow> string" where
  "check_all_line r =
     (let res = isCompositeProduct (Integer (r_value r))
      in r_id r @ '' ('' @ String_int (r_value r) @ '') '' @ right_arrow @ '' '' @
         yes_no res @ '': '' @ explanation res)"

definition blank_line :: string where
  "blank_line = [CHR 0x0A, CHR 0x0A]"

definition command_output :: "RecordItem list \<Rightarrow> string option \<Rightarrow> string \<Rightarrow> string" where
  "command_output recs recordId command =
     (if command = ''check'' \<and> truthy recordId then
        (case find (\<lambda>r. Some (r_id r) = recordId) recs of
           None \<Rightarrow> ''Record not found (it may have been deleted).''
         | Some rec \<Rightarrow> check_line rec)
      else if command = ''check:all'' then join blank_line (map check_all_line recs)
      else ''Unknown command: '' @ command)"

definition new_run :: "RecordItem list \<Rightarrow> string \<Rightarrow> string \<Rightarrow> string option \<Rightarrow> string \<Rightarrow> CommandRun" where
  "new_run recs tail started recordId command =
     \<lparr>c_id = uid ''cmd'' tail, c_recordId = recordId, c_command = command,
      c_output = command_output recs recordId command, c_startedAt = started\<rparr>"

definition runCommand :: "string \<Rightarrow> string \<Rightarrow> string option \<Rightarrow> string \<Rightarrow> app \<Rightarrow> app" where
  "runCommand tail started recordId command st =
     st\<lparr>commands := take 200 (new_run (records st) tail started recordId command # commands st)\<rparr>"

text \<open>
  A run request is the four inputs of one call; \<open>run_all\<close> performs the calls of a list of
  requests one after the other, the first request first.
\<close>

record request =
  q_tail :: string
  q_started :: string
  q_recordId :: "string option"
  q_command :: string

definition run_request :: "app \<Rightarrow> request \<Rightarrow> app" where
  "run_request st rq = runCommand (q_tail rq) (q_started rq) (q_recordId rq) (q_command rq) st"

definition run_all :: "request list \<Rightarrow> app \<Rightarrow> app" where
  "run_all rqs st = foldl run_request st rqs"

section \<open>Persistence\<close>

text \<open>
  \<^verbatim>\<open>
  const LS_RECORDS = "app_records_v1";
  const LS_COMMANDS = "app_cmds_v1";

  const [records, setRecords] = useState<RecordItem[]>(() => {
    try {
      const raw = localStorage.getItem(LS_RECORDS);
      return raw ? (JSON.parse(raw) as RecordItem[]) : [];
    } catch {
      return [];
    }
  });
  ...
  useEffect(() => {
    localStorage.setItem(LS_RECORDS, JSON.stringify(records));
  }, [records]);
  \<close>
  and the same pair for \<^verbatim>\<open>commands\<close> under \<^verbatim>\<open>LS_COMMANDS\<close>. The initialiser is \<open>load\<close>
  and the effect is \<open>save\<close>. \<^verbatim>\<open>localStorage\<close> is a map from keys to texts. What
  \<^verbatim>\<open>JSON.parse\<close> returns is a run-time value of any shape (the \<^verbatim>\<open>as\<close> of the source
  checks nothing when the program runs), so \<open>load\<close> returns a value of the type \<open>json\<close>.
  \<open>load\<close> and \<open>save\<close> take the parser and the printer as arguments; the program is
  \<open>load JSON_parse\<close> and \<open>save JSON_stringify\<close>, with the two functions defined below.
  A parse that throws is \<open>None\<close>, which the \<^verbatim>\<open>catch\<close> turns into the empty array. The
  test \<^verbatim>\<open>raw ? ... : []\<close> sends an absent and an empty text to \<^verbatim>\<open>[]\<close>.

  A JSON number \<open>JNumber m d\<close> is the decimal \<open>m / 10 ^ d\<close>, kept exact and in lowest form
  (\<open>d = 0\<close>, or \<open>m\<close> not a multiple of 10); it stands for the double that this decimal
  denotes, which is the same number as long as no rounding is involved. An object is the
  list of its members in property order.
\<close>

datatype json =
    JNull
  | JBool bool
  | JNumber int nat
  | JString string
  | JArray "json list"
  | JObject "(string \<times> json) list"

type_synonym localStorage = "string \<rightharpoonup> string"

definition LS_RECORDS :: string where
  "LS_RECORDS = ''app_records_v1''"

definition LS_COMMANDS :: string where
  "LS_COMMANDS = ''app_cmds_v1''"

definition load :: "(string \<Rightarrow> json option) \<Rightarrow> localStorage \<Rightarrow> string \<Rightarrow> json" where
  "load parse ls key =
     (case ls key of
        None \<Rightarrow> JArray []
      | Some raw \<Rightarrow>
          if raw = [] then JArray []
          else (case parse raw of None \<Rightarrow> JArray [] | Some v \<Rightarrow> v))"

definition save :: "(json \<Rightarrow> string) \<Rightarrow> string \<Rightarrow> json \<Rightarrow> localStorage \<Rightarrow> localStorage" where
  "save stringify key v ls = ls(key \<mapsto> stringify v)"

subsection \<open>\<^verbatim>\<open>JSON.stringify\<close>\<close>

text \<open>
  A string is written between quotes with the quote, the backslash and the control
  characters below U+0020 escaped: the short escapes for backspace, tab, line feed, form
  feed and carriage return, and \<^verbatim>\<open>\u00XX\<close> in lower-case hexadecimal for the others.
  Every other byte is written as it is. A number is written as \<^verbatim>\<open>String\<close> writes it: an
  integer by its digits (\<open>String_int\<close>, as everywhere in the model); a decimal with the
  point inside the digits, with up to six zeros after \<^verbatim>\<open>0.\<close>, or else in exponent form.
  Arrays and objects are written without white space.
\<close>

definition hex_digit :: "nat \<Rightarrow> char" where
  "hex_digit d = (if d < 10 then char_of (48 + d) else char_of (87 + d))"

definition escape_char :: "char \<Rightarrow> string" where
  "escape_char c =
     (let k = (of_char c :: nat) in
      if k = 34 then [CHR 0x5C, CHR 0x22]
      else if k = 92 then [CHR 0x5C, CHR 0x5C]
      else if k = 8 then [CHR 0x5C, CHR ''b'']
      else if k = 9 then [CHR 0x5C, CHR ''t'']
      else if k = 10 then [CHR 0x5C, CHR ''n'']
      else if k = 12 then [CHR 0x5C, CHR ''f'']
      else if k = 13 then [CHR 0x5C, CHR ''r'']
      else if k < 32 then
        [CHR 0x5C, CHR ''u'', CHR ''0'', CHR ''0'', hex_digit (k div 16), hex_digit (k mod 16)]
      else [c])"

definition quote :: "string \<Rightarrow> string" where
  "quote s = CHR 0x22 # concat (map escape_char s) @ [CHR 0x22]"

fun strip_zeros :: "int \<Rightarrow> nat \<Rightarrow> int \<times> nat" where
  "strip_zeros m 0 = (m, 0)"
| "strip_zeros m (Suc d) = (if m mod 10 = 0 then strip_zeros (m div 10) d else (m, Suc d))"

definition decimal_text :: "int \<Rightarrow> nat \<Rightarrow> string" where
  "decimal_text m d =
     (let ds = digits (nat \<bar>m\<bar>); k = length ds in
      (if m < 0 then ''-'' else []) @
      (if d < k then take (k - d) ds @ ''.'' @ drop (k - d) ds
       else if d - k < 6 then ''0.'' @ replicate (d - k) (CHR ''0'') @ ds
       else take 1 ds @ (if 1 < k then ''.'' @ drop 1 ds else []) @ ''e-'' @ digits (d - k + 1)))"

definition Number_toString :: "int \<Rightarrow> nat \<Rightarrow> string" where
  "Number_toString m d =
     (if d = 0 then String_int m
      else (let (m', d') = strip_zeros m d in
            if d' = 0 then String_int m' else decimal_text m' d'))"

fun JSON_stringify :: "json \<Rightarrow> string" where
  "JSON_stringify JNull = ''null''"
| "JSON_stringify (JBool b) = (if b then ''true'' else ''false'')"
| "JSON_stringify (JNumber m d) = Number_toString m d"
| "JSON_stringify (JString s) = quote s"
| "JSON_stringify (JArray vs) = ''['' @ join '','' (map JSON_stringify vs) @ '']''"
| "JSON_stringify (JObject ms) =
     ''{'' @ join '','' (map (\<lambda>m. quote (fst m) @ '':'' @ JSON_stringify (snd m)) ms) @ ''}''"

subsection \<open>\<^verbatim>\<open>JSON.parse\<close>\<close>

text \<open>
  The parser accepts the JSON grammar: white space (space, tab, line feed, carriage
  return) around every token; \<^verbatim>\<open>null\<close>, \<^verbatim>\<open>true\<close>, \<^verbatim>\<open>false\<close>; numbers with an
  optional minus sign, no leading zero, an optional fraction and an optional exponent;
  strings with the escapes \<^verbatim>\<open>\" \\ \/ \b \f \n \r \t\<close> and \<^verbatim>\<open>\uXXXX\<close>, and no raw
  control character; arrays; objects. Anything else, and anything left after the value, is
  a syntax error (\<open>None\<close>). A \<^verbatim>\<open>\uXXXX\<close> escape yields the UTF-8 bytes of its character,
  a pair of surrogate escapes those of the character they encode. The members of an object
  are stored as the platform orders properties: a key that is an array index goes among
  the index keys in ascending order, any other key goes to the end, and a key that occurs
  again replaces the value in place. The mutual recursion over values, elements and members
  runs on a fuel argument, of which it takes at most two units for a character it reads;
  \<open>JSON_parse\<close> starts it with more than twice the length of the text.
\<close>

definition is_digit :: "char \<Rightarrow> bool" where
  "is_digit c \<longleftrightarrow> 48 \<le> (of_char c :: nat) \<and> (of_char c :: nat) \<le> 57"

definition json_space :: "char \<Rightarrow> bool" where
  "json_space c \<longleftrightarrow> (of_char c :: nat) \<in> {9, 10, 13, 32}"

definition skip_ws :: "string \<Rightarrow> string" where
  "skip_ws s = dropWhile json_space s"

definition int_of_digits :: "string \<Rightarrow> int" where
  "int_of_digits ds = foldl (\<lambda>a c. 10 * a + (of_char c - 48)) 0 ds"

definition read_number :: "string \<Rightarrow> ((int \<times> nat) \<times> string) option" where
  "read_number s =
     (let neg = (take 1 s = ''-'');
          body = (if neg then drop 1 s else s);
          ip = takeWhile is_digit body;
          r1 = dropWhile is_digit body;
          has_frac = (take 1 r1 = ''.'');
          fp = (if has_frac then takeWhile is_digit (drop 1 r1) else []);
          r2 = (if has_frac then dropWhile is_digit (drop 1 r1) else r1);
          has_exp = (take 1 r2 = ''e'' \<or> take 1 r2 = ''E'');
          r3 = (if has_exp then drop 1 r2 else r2);
          eneg = (has_exp \<and> take 1 r3 = ''-'');
          r4 = (if has_exp \<and> (take 1 r3 = ''-'' \<or> take 1 r3 = ''+'') then drop 1 r3 else r3);
          ep = (if has_exp then takeWhile is_digit r4 else []);
          r5 = (if has_exp then dropWhile is_digit r4 else r2)
      in if ip = [] \<or> (1 < length ip \<and> hd ip = CHR ''0'') \<or> (has_frac \<and> fp = []) \<or>
            (has_exp \<and> ep = []) then None
         else (let m = int_of_digits (ip @ fp);
                   e = (if eneg then - int_of_digits ep else int_of_digits ep)
                       - int (length fp);
                   sm = (if neg then - m else m)
               in Some (if 0 \<le> e then (sm * 10 ^ nat e, 0) else strip_zeros sm (nat (- e)), r5)))"

definition hex_value :: "char \<Rightarrow> nat option" where
  "hex_value c =
     (let k = (of_char c :: nat) in
      if 48 \<le> k \<and> k \<le> 57 then Some (k - 48)
      else if 97 \<le> k \<and> k \<le> 102 then Some (k - 87)
      else if 65 \<le> k \<and> k \<le> 70 then Some (k - 55)
      else None)"

definition hex4 :: "string \<Rightarrow> nat option" where
  "hex4 s =
     (case map hex_value s of
        [Some a, Some b, Some c, Some d] \<Rightarrow> Some (((a * 16 + b) * 16 + c) * 16 + d)
      | _ \<Rightarrow> None)"

definition utf8 :: "nat \<Rightarrow> string" where
  "utf8 n =
     (if n < 128 then [char_of n]
      else if n < 2048 then [char_of (192 + n div 64), char_of (128 + n mod 64)]
      else if n < 65536 then
        [char_of (224 + n div 4096), char_of (128 + n div 64 mod 64), char_of (128 + n mod 64)]
      else [char_of (240 + n div 262144), char_of (128 + n div 4096 mod 64),
            char_of (128 + n div 64 mod 64), char_of (128 + n mod 64)])"

definition unescape :: "char \<Rightarrow> char option" where
  "unescape e =
     (if e = CHR 0x22 then Some (CHR 0x22)
      else if e = CHR 0x5C then Some (CHR 0x5C)
      else if e = CHR ''/'' then Some (CHR ''/'')
      else if e = CHR ''b'' then Some (CHR 0x08)
      else if e = CHR ''f'' then Some (CHR 0x0C)
      else if e = CHR ''n'' then Some (CHR 0x0A)
      else if e = CHR ''r'' then Some (CHR 0x0D)
      else if e = CHR ''t'' then Some (CHR 0x09)
      else None)"

definition low_half :: "string \<Rightarrow> nat option" where
  "low_half s =
     (if take 2 s = [CHR 0x5C, CHR ''u''] then
        (case hex4 (take 4 (drop 2 s)) of
           None \<Rightarrow> None
         | Some lo \<Rightarrow> if 56320 \<le> lo \<and> lo < 57344 then Some lo else None)
      else None)"

fun read_string :: "string \<Rightarrow> (string \<times> string) option" where
  "read_string [] = None"
| "read_string (c # cs) =
     (if c = CHR 0x22 then Some ([], cs)
      else if c = CHR 0x5C then
        (case cs of
           [] \<Rightarrow> None
         | e # es \<Rightarrow>
             if e = CHR ''u'' then
               (case hex4 (take 4 es) of
                  None \<Rightarrow> None
                | Some hi \<Rightarrow>
                    (case (if 55296 \<le> hi \<and> hi < 56320 then low_half (drop 4 es) else None) of
                       Some lo \<Rightarrow>
                         (case read_string (drop 10 es) of
                            None \<Rightarrow> None
                          | Some (s, r) \<Rightarrow>
                              Some (utf8 (65536 + (hi - 55296) * 1024 + (lo - 56320)) @ s, r))
                     | None \<Rightarrow>
                         (case read_string (drop 4 es) of
                            None \<Rightarrow> None
                          | Some (s, r) \<Rightarrow> Some (utf8 hi @ s, r))))
             else
               (case unescape e of
                  None \<Rightarrow> None
                | Some b \<Rightarrow>
                    (case read_string es of None \<Rightarrow> None | Some (s, r) \<Rightarrow> Some (b # s, r))))
      else if (of_char c :: nat) < 32 then None
      else (case read_string cs of None \<Rightarrow> None | Some (s, r) \<Rightarrow> Some (c # s, r)))"

definition is_index :: "string \<Rightarrow> bool" where
  "is_index k \<longleftrightarrow>
     k \<noteq> [] \<and> list_all is_digit k \<and> (length k = 1 \<or> hd k \<noteq> CHR ''0'') \<and>
     int_of_digits k < 4294967295"

fun put :: "string \<Rightarrow> json \<Rightarrow> (string \<times> json) list \<Rightarrow> (string \<times> json) list" where
  "put k v [] = [(k, v)]"
| "put k v ((k', v') # ms) =
     (if k' = k then (k, v) # ms
      else if is_index k \<and> (\<not> is_index k' \<or> int_of_digits k < int_of_digits k')
        then (k, v) # (k', v') # ms
      else (k', v') # put k v ms)"

definition object_of :: "(string \<times> json) list \<Rightarrow> json" where
  "object_of ms = JObject (foldl (\<lambda>acc m. put (fst m) (snd m) acc) [] ms)"

fun parse_value :: "nat \<Rightarrow> string \<Rightarrow> (json \<times> string) option"
  and parse_elements :: "nat \<Rightarrow> string \<Rightarrow> (json list \<times> string) option"
  and parse_members :: "nat \<Rightarrow> string \<Rightarrow> ((string \<times> json) list \<times> string) option"
where
  "parse_value 0 s = None"
| "parse_value (Suc f) s =
     (let t = skip_ws s in
      if prefix ''null'' t then Some (JNull, drop 4 t)
      else if prefix ''true'' t then Some (JBool True, drop 4 t)
      else if prefix ''false'' t then Some (JBool False, drop 5 t)
      else if take 1 t = [CHR 0x22] then
        (case read_string (drop 1 t) of None \<Rightarrow> None | Some (x, r) \<Rightarrow> Some (JString x, r))
      else if take 1 t = ''['' then
        (if take 1 (skip_ws (drop 1 t)) = '']'' then Some (JArray [], drop 1 (skip_ws (drop 1 t)))
         else (case parse_elements f (drop 1 t) of
                 None \<Rightarrow> None | Some (vs, r) \<Rightarrow> Some (JArray vs, r)))
      else if take 1 t = ''{'' then
        (if take 1 (skip_ws (drop 1 t)) = ''}'' then Some (JObject [], drop 1 (skip_ws (drop 1 t)))
         else (case parse_members f (drop 1 t) of
                 None \<Rightarrow> None | Some (ms, r) \<Rightarrow> Some (object_of ms, r)))
      else (case read_number t of
              None \<Rightarrow> None | Some ((m, d), r) \<Rightarrow> Some (JNumber m d, r)))"
| "parse_elements 0 s = None"
| "parse_elements (Suc f) s =
     (case parse_value f s of
        None \<Rightarrow> None
      | Some (v, r) \<Rightarrow>
          (let t = skip_ws r in
           if take 1 t = '','' then
             (case parse_elements f (drop 1 t) of
                None \<Rightarrow> None | Some (vs, r') \<Rightarrow> Some (v # vs, r'))
           else if take 1 t = '']'' then Some ([v], drop 1 t)
           else None))"
| "parse_members 0 s = None"
| "parse_members (Suc f) s =
     (let t = skip_ws s in
      if take 1 t = [CHR 0x22] then
        (case read_string (drop 1 t) of
           None \<Rightarrow> None
         | Some (k, r) \<Rightarrow>
             (let t' = skip_ws r in
              if take 1 t' = '':'' then
                (case parse_value f (drop 1 t') of
                   None \<Rightarrow> None
                 | Some (v, r') \<Rightarrow>
                     (let t'' = skip_ws r' in
                      if take 1 t'' = '','' then
                        (case parse_members f (drop 1 t'') of
                           None \<Rightarrow> None | Some (ms, r'') \<Rightarrow> Some ((k, v) # ms, r''))
                      else if take 1 t'' = ''}'' then Some ([(k, v)], drop 1 t'')
                      else None))
              else None))
      else None)"

definition JSON_parse :: "string \<Rightarrow> json option" where
  "JSON_parse raw =
     (case parse_value (2 * length raw + 2) raw of
        None \<Rightarrow> None
      | Some (v, r) \<Rightarrow> if skip_ws r = [] then Some v else None)"

subsection \<open>The two collections as stored values\<close>

text \<open>
  The run-time values of the two collections, as \<^verbatim>\<open>JSON.stringify\<close> sees them: an object
  per entry, its keys in the order of the object literal that built it, an undefined
  \<^verbatim>\<open>label\<close> left out and a null \<^verbatim>\<open>recordId\<close> kept. \<open>save_app\<close> is the two effects
  together.
\<close>

definition json_of_RecordItem :: "RecordItem \<Rightarrow> json" where
  "json_of_RecordItem r =
     JObject ([(''id'', JString (r_id r))] @
              (case r_label r of None \<Rightarrow> [] | Some l \<Rightarrow> [(''label'', JString l)]) @
              [(''value'', JNumber (r_value r) 0), (''createdAt'', JString (r_createdAt r))])"

definition json_of_CommandRun :: "CommandRun \<Rightarrow> json" where
  "json_of_CommandRun c =
     JObject [(''id'', JString (c_id c)),
              (''recordId'', (case c_recordId c of None \<Rightarrow> JNull | Some i \<Rightarrow> JString i)),
              (''command'', JString (c_command c)),
              (''output'', JString (c_output c)),
              (''startedAt'', JString (c_startedAt c))]"

definition json_of_records :: "RecordItem list \<Rightarrow> json" where
  "json_of_records rs = JArray (map json_of_RecordItem rs)"

definition json_of_commands :: "CommandRun list \<Rightarrow> json" where
  "json_of_commands cs = JArray (map json_of_CommandRun cs)"

definition save_app :: "app \<Rightarrow> localStorage \<Rightarrow> localStorage" where
  "save_app st ls =
     save JSON_stringify LS_COMMANDS (json_of_commands (commands st))
       (save JSON_stringify LS_RECORDS (json_of_records (records st)) ls)"

text \<open>
  The values whose printed text is proved to parse back: integers for numbers, and objects
  with distinct keys none of which is an array index. The values of both collections are
  of this kind. \<open>ends_value\<close> says what may follow a printed value inside a text, and
  \<open>member_text\<close> is the printed form of one member of an object.
\<close>

fun storable :: "json \<Rightarrow> bool" where
  "storable (JNumber m d) \<longleftrightarrow> d = 0"
| "storable (JArray vs) \<longleftrightarrow> list_all storable vs"
| "storable (JObject ms) \<longleftrightarrow>
     distinct (map fst ms) \<and> list_all (\<lambda>m. \<not> is_index (fst m) \<and> storable (snd m)) ms"
| "storable v \<longleftrightarrow> True"

definition ends_value :: "string \<Rightarrow> bool" where
  "ends_value rest \<longleftrightarrow>
     (case rest of [] \<Rightarrow> True | c # _ \<Rightarrow> c = CHR '','' \<or> c = CHR '']'' \<or> c = CHR ''}'')"

definition member_text :: "string \<times> json \<Rightarrow> string" where
  "member_text m = quote (fst m) @ '':'' @ JSON_stringify (snd m)"

section \<open>Notions the specification uses\<close>

text \<open>
  Primality and the smallest divisor from 2 on, as the specification means them. Both are
  written independently of the scanning loop, over the finite interval of candidates, so
  that they can be evaluated.
\<close>

definition is_prime :: "int \<Rightarrow> bool" where
  "is_prime n \<longleftrightarrow> 1 < n \<and> (\<forall>d \<in> {2 .. n - 1}. \<not> d dvd n)"

definition smallest_divisor :: "int \<Rightarrow> int" where
  "smallest_divisor n = Min {d \<in> {2 .. n}. d dvd n}"

text \<open>
  What the loop has established when it stops at \<open>j\<close>, having started at \<open>i\<close>: the
  test \<open>j * j \<le> n\<close> passed, \<open>j\<close> divides \<open>n\<close>, and nothing from 2 up to \<open>j\<close> does.
\<close>

definition found :: "int \<Rightarrow> int \<Rightarrow> int \<Rightarrow> bool" where
  "found n i j \<longleftrightarrow> i \<le> j \<and> j * j \<le> n \<and> j dvd n \<and> (\<forall>d. 2 \<le> d \<and> d < j \<longrightarrow> \<not> d dvd n)"

text \<open>
  The output of \<^verbatim>\<open>check:all\<close> as the specification words it: one line per record,
  \<^verbatim>\<open>id (value) <arrow> YES/NO: explanation\<close>, where YES stands for a value above 3 that
  is not prime, and a blank line before every line but the first.
\<close>

definition spec_line :: "RecordItem \<Rightarrow> string" where
  "spec_line r =
     r_id r @ '' ('' @ String_int (r_value r) @ '') '' @ right_arrow @ '' '' @
     (if 3 < r_value r \<and> \<not> is_prime (r_value r) then ''YES'' else ''NO'') @ '': '' @
     explanation (isCompositeProduct (Integer (r_value r)))"

fun spec_check_all :: "RecordItem list \<Rightarrow> string" where
  "spec_check_all [] = []"
| "spec_check_all (r # rs) = spec_line r @ concat (map (\<lambda>r'. blank_line @ spec_line r') rs)"

text \<open>The command run that a request produces over a given record collection.\<close>

definition run_of :: "RecordItem list \<Rightarrow> request \<Rightarrow> CommandRun" where
  "run_of recs rq = new_run recs (q_tail rq) (q_started rq) (q_recordId rq) (q_command rq)"

section \<open>Example states\<close>

text \<open>
  Two records, the newer one first, and no history; a history that holds one run whose
  record does not exist; and two run requests.
\<close>

definition record_b :: RecordItem where
  "record_b = \<lparr>r_id = ''rec_b'', r_label = Some ''Sample-1'', r_value = 4, r_createdAt = ''t2''\<rparr>"

definition record_a :: RecordItem where
  "record_a = \<lparr>r_id = ''rec_a'', r_label = None, r_value = 7, r_createdAt = ''t1''\<rparr>"

definition example_state :: app where
  "example_state = \<lparr>records = [record_b, record_a], commands = []\<rparr>"

definition dangling_state :: app where
  "dangling_state =
     runCommand ''x1'' ''t3'' (Some ''rec_z'') ''check'' \<lparr>records = [], commands = []\<rparr>"

definition checked_state :: app where
  "checked_state = runCommand ''x1'' ''t3'' None ''check:all'' example_state"

definition request_a :: request where
  "request_a = \<lparr>q_tail = ''x1'', q_started = ''t3'', q_recordId = Some ''rec_b'', q_command = ''check''\<rparr>"

definition request_b :: request where
  "request_b = \<lparr>q_tail = ''x2'', q_started = ''t4'', q_recordId = None, q_command = ''check:all''\<rparr>"

section \<open>The composite check decides compositeness\<close>

lemma smod_zero_iff_dvd: "(k::int) smod l = 0 \<longleftrightarrow> l dvd k"
proof -
  have "k smod l = 0 \<longleftrightarrow> \<bar>k\<bar> mod \<bar>l\<bar> = 0"
    by (simp add: signed_modulo_int_def sgn_if)
  also have "\<dots> \<longleftrightarrow> \<bar>l\<bar> dvd \<bar>k\<bar>"
    by (simp add: dvd_eq_mod_eq_0)
  also have "\<dots> \<longleftrightarrow> l dvd k" by simp
  finally show ?thesis .
qed

lemma scan_cases:
  "2 \<le> i \<Longrightarrow> (\<forall>d. 2 \<le> d \<and> d < i \<longrightarrow> \<not> d dvd n) \<Longrightarrow>
   (\<exists>j. found n i j \<and> scan n i = \<lparr>result = True, explanation = product_msg n j (n div j)\<rparr>) \<or>
   ((\<forall>d. 2 \<le> d \<and> d * d \<le> n \<longrightarrow> \<not> d dvd n) \<and>
        scan n i = \<lparr>result = False, explanation = prime_msg n\<rparr>)"
proof (induction n i rule: scan.induct)
  case (1 n i)
  note lo = \<open>2 \<le> i\<close> and below = \<open>\<forall>d. 2 \<le> d \<and> d < i \<longrightarrow> \<not> d dvd n\<close>
  show ?case
  proof (cases "i * i \<le> n")
    case False
    have "\<not> d dvd n" if d: "2 \<le> d" "d * d \<le> n" for d
    proof -
      have "d < i"
      proof (rule ccontr)
        assume "\<not> d < i"
        then have "i \<le> d" by simp
        with lo have "i * i \<le> d * d" by (intro mult_mono) auto
        with d False show False by linarith
      qed
      with d below show ?thesis by blast
    qed
    moreover have "scan n i = \<lparr>result = False, explanation = prime_msg n\<rparr>"
      using False by (subst scan.simps) simp
    ultimately show ?thesis by blast
  next
    case True
    show ?thesis
    proof (cases "i dvd n")
      case dv: True
      have "scan n i = \<lparr>result = True, explanation = product_msg n i (n div i)\<rparr>"
        using True dv by (subst scan.simps) (simp add: smod_zero_iff_dvd)
      moreover have "found n i i"
        using True dv below by (simp add: found_def)
      ultimately show ?thesis by blast
    next
      case ndv: False
      have step: "scan n i = scan n (i + 1)"
        using True ndv by (subst scan.simps) (simp add: smod_zero_iff_dvd)
      have nodiv: "\<forall>d. 2 \<le> d \<and> d < i + 1 \<longrightarrow> \<not> d dvd n"
      proof (intro allI impI)
        fix d assume "2 \<le> d \<and> d < i + 1"
        then have "d < i \<or> d = i" "2 \<le> d" by auto
        with below ndv show "\<not> d dvd n" by blast
      qed
      have nz: "n smod i \<noteq> 0" using ndv by (simp add: smod_zero_iff_dvd)
      have lo': "2 \<le> i + 1" using lo by simp
      have weaken: "found n i j" if "found n (i + 1) j" for j
        using that by (simp add: found_def)
      from "1.IH"[OF True nz lo' nodiv] show ?thesis
        unfolding step using weaken by blast
    qed
  qed
qed

lemma found_facts:
  assumes n: "3 < n" and f: "found n 2 j"
  shows "smallest_divisor n = j" and "\<not> is_prime n" and "j * (n div j) = n" and "2 \<le> j"
    and "j \<le> n div j"
proof -
  from f have j2: "2 \<le> j" and sq: "j * j \<le> n" and dv: "j dvd n"
    and least: "\<And>d. 2 \<le> d \<Longrightarrow> d < j \<Longrightarrow> \<not> d dvd n"
    by (auto simp: found_def)
  have "2 * j \<le> j * j" using j2 by (intro mult_right_mono) auto
  with sq have jn: "j < n" using j2 by linarith
  show "2 \<le> j" by (rule j2)
  show "j * (n div j) = n" using dv by simp
  have "j * j div j \<le> n div j" using sq j2 by (intro zdiv_mono1) auto
  then show "j \<le> n div j" using j2 by simp
  show "\<not> is_prime n" using j2 jn dv by (auto simp: is_prime_def)
  show "smallest_divisor n = j"
    unfolding smallest_divisor_def
  proof (rule Min_eqI)
    have "finite {2 .. n}" by simp
    then show "finite {d \<in> {2 .. n}. d dvd n}" by (rule finite_subset[rotated]) auto
    show "j \<in> {d \<in> {2 .. n}. d dvd n}" using j2 jn dv by simp
    fix d assume "d \<in> {d \<in> {2 .. n}. d dvd n}"
    then have "2 \<le> d" "d dvd n" by auto
    with least[of d] show "j \<le> d" by force
  qed
qed

lemma no_small_divisor_prime:
  assumes n: "3 < n" and none: "\<forall>d. 2 \<le> d \<and> d * d \<le> n \<longrightarrow> \<not> d dvd n"
  shows "is_prime n"
proof -
  have "\<not> d dvd n" if d: "d \<in> {2 .. n - 1}" for d
  proof
    assume dv: "d dvd n"
    define e where "e = n div d"
    from d have d2: "2 \<le> d" and dn: "d < n" by auto
    from dv have prod: "d * e = n" by (simp add: e_def)
    have e2: "2 \<le> e"
    proof (rule ccontr)
      assume "\<not> 2 \<le> e"
      then have "e \<le> 1" by simp
      then have "d * e \<le> d * 1" using d2 by (intro mult_left_mono) auto
      with prod dn show False by simp
    qed
    have edv: "e dvd n" using prod by (metis dvd_triv_right)
    show False
    proof (cases "d \<le> e")
      case True
      then have "d * d \<le> d * e" using d2 by (intro mult_left_mono) auto
      with prod none d2 dv show False by auto
    next
      case False
      then have "e * e \<le> d * e" using e2 by (intro mult_right_mono) auto
      with prod none e2 edv show False by auto
    qed
  qed
  with n show ?thesis by (simp add: is_prime_def)
qed

lemma scan_from_two:
  obtains (hit) j where "found n 2 j"
      "scan n 2 = \<lparr>result = True, explanation = product_msg n j (n div j)\<rparr>"
  | (miss) "\<forall>d. 2 \<le> d \<and> d * d \<le> n \<longrightarrow> \<not> d dvd n"
      "scan n 2 = \<lparr>result = False, explanation = prime_msg n\<rparr>"
proof -
  have a: "(2::int) \<le> 2" by simp
  have b: "\<forall>d::int. 2 \<le> d \<and> d < 2 \<longrightarrow> \<not> d dvd n" by auto
  from scan_cases[OF a b] hit miss show thesis by blast
qed

lemma result_iff_composite:
  "result (isCompositeProduct (Integer n)) \<longleftrightarrow> 3 < n \<and> \<not> is_prime n"
proof (cases "3 < n")
  case False
  then show ?thesis by simp
next
  case True
  then have eq: "isCompositeProduct (Integer n) = scan n 2" by simp
  show ?thesis
  proof (cases n rule: scan_from_two)
    case (hit j)
    from found_facts(2)[OF True hit(1)] hit(2) True show ?thesis unfolding eq by simp
  next
    case miss
    from no_small_divisor_prime[OF True miss(1)] miss(2) show ?thesis unfolding eq by simp
  qed
qed



text \<open>
  Claim C2. An input that is not an integer, or an integer \<open>n \<le> 3\<close> (negative numbers,
  0, 1, 2 and 3 alike), is answered with \<open>result = false\<close> and the one fixed explanation
  that names the minimum valid input. The function is total: nothing is raised, and the
  answer does not tell the reasons for ineligibility apart.
\<close>

theorem isCompositeProduct_ineligible:
  assumes "x = NonInteger \<or> (\<exists>n. x = Integer n \<and> n \<le> 3)"
  shows "isCompositeProduct x = \<lparr>result = False, explanation = too_small_msg\<rparr>"
  using assms by auto

theorem isCompositeProduct_ineligible_witness:
  "isCompositeProduct NonInteger = \<lparr>result = False, explanation = too_small_msg\<rparr> \<and>
   isCompositeProduct (Integer 3) = \<lparr>result = False, explanation = too_small_msg\<rparr> \<and>
   isCompositeProduct (Integer 0) = \<lparr>result = False, explanation = too_small_msg\<rparr> \<and>
   isCompositeProduct (Integer (- 7)) = \<lparr>result = False, explanation = too_small_msg\<rparr>"
proof (intro conjI)
  show "isCompositeProduct NonInteger = \<lparr>result = False, explanation = too_small_msg\<rparr>"
    by (rule isCompositeProduct_ineligible) simp
  show "isCompositeProduct (Integer 3) = \<lparr>result = False, explanation = too_small_msg\<rparr>"
    by (rule isCompositeProduct_ineligible) simp
  show "isCompositeProduct (Integer 0) = \<lparr>result = False, explanation = too_small_msg\<rparr>"
    by (rule isCompositeProduct_ineligible) simp
  show "isCompositeProduct (Integer (- 7)) = \<lparr>result = False, explanation = too_small_msg\<rparr>"
    by (rule isCompositeProduct_ineligible) simp
qed

section \<open>Running commands\<close>

lemma runCommand_eq:
  "runCommand tail started recordId command st =
     st\<lparr>commands :=
          \<lparr>c_id = uid ''cmd'' tail, c_recordId = recordId, c_command = command,
           c_output = command_output (records st) recordId command, c_startedAt = started\<rparr>
          # take 199 (commands st)\<rparr>"
  by (simp add: runCommand_def new_run_def take_Cons')
lemma check_all_line_spec: "check_all_line r = spec_line r"
  by (simp add: check_all_line_def spec_line_def yes_no_def Let_def result_iff_composite
      del: isCompositeProduct.simps)

lemma join_Cons: "join sep (x # xs) = x @ concat (map (\<lambda>y. sep @ y) xs)"
  by (induction xs arbitrary: x) simp_all

lemma join_spec: "join blank_line (map check_all_line rs) = spec_check_all rs"
  by (cases rs) (simp_all add: join_Cons check_all_line_spec comp_def)

text \<open>
  Claim C3, as amended. Running \<^verbatim>\<open>check:all\<close> computes its output from the current
  records alone, whatever \<^verbatim>\<open>recordId\<close> is passed: one line
  \<^verbatim>\<open>id (value) <arrow> YES/NO: explanation\<close> per record in the order of the collection,
  a blank line between neighbours, and the empty string for an empty collection. The new
  run is put at the front of the history. Its \<^verbatim>\<open>recordId\<close> is the one passed in: absent
  when none was passed, and not otherwise.
\<close>

theorem check_all_run:
  "runCommand tail started recordId ''check:all'' st =
     st\<lparr>commands :=
          \<lparr>c_id = uid ''cmd'' tail, c_recordId = recordId, c_command = ''check:all'',
           c_output = spec_check_all (records st), c_startedAt = started\<rparr>
          # take 199 (commands st)\<rparr>"
  by (simp add: runCommand_eq command_output_def join_spec)

theorem check_all_run_witness:
  "c_output (hd (commands (runCommand ''x1'' ''t3'' None ''check:all'' example_state))) =
     ''rec_b (4) '' @ right_arrow @ '' YES: 4 = 2 '' @ times_sign @ '' 2'' @ blank_line @
     ''rec_a (7) '' @ right_arrow @ '' NO: 7 is prime '' @ em_dash @
     '' it cannot be expressed as product of two integers > 1.'' \<and>
   c_output (hd (commands (runCommand ''x1'' ''t3'' None ''check:all''
      (example_state\<lparr>records := []\<rparr>)))) = []"
proof -
  have ev: "spec_check_all (records example_state) =
     ''rec_b (4) '' @ right_arrow @ '' YES: 4 = 2 '' @ times_sign @ '' 2'' @ blank_line @
     ''rec_a (7) '' @ right_arrow @ '' NO: 7 is prime '' @ em_dash @
     '' it cannot be expressed as product of two integers > 1.''"
    by code_simp
  show ?thesis
    using check_all_run [of "''x1''" "''t3''" None example_state]
      check_all_run [of "''x1''" "''t3''" None "example_state\<lparr>records := []\<rparr>"] ev
    by simp
qed

text \<open>
  Claim C3 as first stated says that the run is recorded as global. A run of
  \<^verbatim>\<open>check:all\<close> with a \<^verbatim>\<open>recordId\<close> keeps that \<^verbatim>\<open>recordId\<close>.
\<close>

theorem check_all_recordId_counterexample:
  "c_recordId (hd (commands (runCommand ''x1'' ''t3'' (Some ''rec_a'') ''check:all'' example_state)))
     = Some ''rec_a''"
  by (simp add: runCommand_def new_run_def)

text \<open>
  Claim C4. \<open>runCommand\<close> is a total function with no failing branch: for every command
  string it returns the state with a new run at the front of the history. A \<^verbatim>\<open>check\<close> whose
  (non-empty) \<^verbatim>\<open>recordId\<close> matches no record yields the run with the not-found
  message, and a command other than \<^verbatim>\<open>check\<close> and \<^verbatim>\<open>check:all\<close> yields the run with
  \<^verbatim>\<open>Unknown command: <command>\<close>. In both cases the run is put at the front of the
  history, which is cut to 200 entries, as for every run. (The empty \<^verbatim>\<open>recordId\<close> is
  the case of claim C10.)
\<close>

theorem run_soft_failure:
  "(\<exists>out. runCommand tail started recordId command st =
      st\<lparr>commands :=
           \<lparr>c_id = uid ''cmd'' tail, c_recordId = recordId, c_command = command,
            c_output = out, c_startedAt = started\<rparr>
           # take 199 (commands st)\<rparr>) \<and>
   (command = ''check'' \<and> recordId = Some rid \<and> rid \<noteq> [] \<and>
    (\<forall>r \<in> set (records st). r_id r \<noteq> rid) \<longrightarrow>
      runCommand tail started recordId command st =
        st\<lparr>commands :=
             \<lparr>c_id = uid ''cmd'' tail, c_recordId = recordId, c_command = command,
              c_output = ''Record not found (it may have been deleted).'',
              c_startedAt = started\<rparr>
             # take 199 (commands st)\<rparr>) \<and>
   (command \<noteq> ''check'' \<and> command \<noteq> ''check:all'' \<longrightarrow>
      runCommand tail started recordId command st =
        st\<lparr>commands :=
             \<lparr>c_id = uid ''cmd'' tail, c_recordId = recordId, c_command = command,
              c_output = ''Unknown command: '' @ command, c_startedAt = started\<rparr>
             # take 199 (commands st)\<rparr>)"
proof (intro conjI impI)
  show "\<exists>out. runCommand tail started recordId command st =
      st\<lparr>commands :=
           \<lparr>c_id = uid ''cmd'' tail, c_recordId = recordId, c_command = command,
            c_output = out, c_startedAt = started\<rparr>
           # take 199 (commands st)\<rparr>"
    using runCommand_eq by blast
next
  assume a: "command = ''check'' \<and> recordId = Some rid \<and> rid \<noteq> [] \<and>
    (\<forall>r \<in> set (records st). r_id r \<noteq> rid)"
  then have "find (\<lambda>r. Some (r_id r) = recordId) (records st) = None"
    by (auto simp: find_None_iff)
  with a have "command_output (records st) recordId command =
      ''Record not found (it may have been deleted).''"
    by (simp add: command_output_def truthy_def)
  then show "runCommand tail started recordId command st =
        st\<lparr>commands :=
             \<lparr>c_id = uid ''cmd'' tail, c_recordId = recordId, c_command = command,
              c_output = ''Record not found (it may have been deleted).'',
              c_startedAt = started\<rparr>
             # take 199 (commands st)\<rparr>"
    by (simp add: runCommand_eq)
next
  assume "command \<noteq> ''check'' \<and> command \<noteq> ''check:all''"
  then have "command_output (records st) recordId command = ''Unknown command: '' @ command"
    by (simp add: command_output_def)
  then show "runCommand tail started recordId command st =
        st\<lparr>commands :=
             \<lparr>c_id = uid ''cmd'' tail, c_recordId = recordId, c_command = command,
              c_output = ''Unknown command: '' @ command, c_startedAt = started\<rparr>
             # take 199 (commands st)\<rparr>"
    by (simp add: runCommand_eq)
qed

theorem run_soft_failure_witness:
  "runCommand ''x1'' ''t3'' (Some ''rec_z'') ''check'' example_state =
     example_state\<lparr>commands :=
       [\<lparr>c_id = ''cmd_x1'', c_recordId = Some ''rec_z'', c_command = ''check'',
         c_output = ''Record not found (it may have been deleted).'', c_startedAt = ''t3''\<rparr>]\<rparr> \<and>
   runCommand ''x2'' ''t4'' None ''foo'' example_state =
     example_state\<lparr>commands :=
       [\<lparr>c_id = ''cmd_x2'', c_recordId = None, c_command = ''foo'',
         c_output = ''Unknown command: foo'', c_startedAt = ''t4''\<rparr>]\<rparr>"
proof -
  have absent: "\<forall>r \<in> set (records example_state). r_id r \<noteq> ''rec_z''"
    by (simp add: example_state_def record_a_def record_b_def)
  have hist: "take 199 (commands example_state) = []"
    by (simp add: example_state_def)
  have a: "runCommand ''x1'' ''t3'' (Some ''rec_z'') ''check'' example_state =
     example_state\<lparr>commands :=
       [\<lparr>c_id = ''cmd_x1'', c_recordId = Some ''rec_z'', c_command = ''check'',
         c_output = ''Record not found (it may have been deleted).'', c_startedAt = ''t3''\<rparr>]\<rparr>"
    using run_soft_failure [of "''x1''" "''t3''" "Some ''rec_z''" "''check''" example_state
        "''rec_z''"] absent
    by (simp add: hist uid_def)
  have b: "runCommand ''x2'' ''t4'' None ''foo'' example_state =
     example_state\<lparr>commands :=
       [\<lparr>c_id = ''cmd_x2'', c_recordId = None, c_command = ''foo'',
         c_output = ''Unknown command: foo'', c_startedAt = ''t4''\<rparr>]\<rparr>"
    using run_soft_failure [of "''x2''" "''t4''" None "''foo''" example_state "''rec_z''"]
    by (simp add: hist uid_def)
  from a b show ?thesis by blast
qed

text \<open>
  Claim C10. A \<^verbatim>\<open>check\<close> whose \<^verbatim>\<open>recordId\<close> is absent or the empty string fails the
  truthiness test of the first branch and is not \<^verbatim>\<open>check:all\<close>, so it ends in the last
  branch: the run is recorded with the output \<^verbatim>\<open>Unknown command: check\<close>.
\<close>

theorem check_without_recordId:
  assumes "recordId = None \<or> recordId = Some []"
  shows "runCommand tail started recordId ''check'' st =
     st\<lparr>commands :=
          \<lparr>c_id = uid ''cmd'' tail, c_recordId = recordId, c_command = ''check'',
           c_output = ''Unknown command: check'', c_startedAt = started\<rparr>
          # take 199 (commands st)\<rparr>"
  using assms by (auto simp: runCommand_eq command_output_def truthy_def)

theorem check_without_recordId_witness:
  "runCommand ''x1'' ''t3'' None ''check'' example_state =
     example_state\<lparr>commands :=
       [\<lparr>c_id = ''cmd_x1'', c_recordId = None, c_command = ''check'',
         c_output = ''Unknown command: check'', c_startedAt = ''t3''\<rparr>]\<rparr> \<and>
   runCommand ''x1'' ''t3'' (Some []) ''check'' example_state =
     example_state\<lparr>commands :=
       [\<lparr>c_id = ''cmd_x1'', c_recordId = Some [], c_command = ''check'',
         c_output = ''Unknown command: check'', c_startedAt = ''t3''\<rparr>]\<rparr>"
proof -
  have hist: "take 199 (commands example_state) = []"
    by (simp add: example_state_def)
  show ?thesis
    using check_without_recordId [of None "''x1''" "''t3''" example_state]
      check_without_recordId [of "Some []" "''x1''" "''t3''" example_state]
    by (simp add: hist uid_def)
qed

section \<open>The bounded history\<close>

lemma take_append_take: "take n (xs @ take n ys) = take n (xs @ ys)"
  by (simp add: min_def)

lemma run_request_records: "records (run_request st rq) = records st"
  by (simp add: run_request_def runCommand_def)

lemma run_request_commands:
  "commands (run_request st rq) = take 200 (run_of (records st) rq # commands st)"
  by (simp add: run_request_def runCommand_def run_of_def)

lemma run_all_records: "records (run_all rqs st) = records st"
  unfolding run_all_def
  by (induction rqs arbitrary: st) (simp_all add: run_request_records)

lemma run_all_commands:
  "commands (run_all (rq # rqs) st) =
     take 200 (rev (map (run_of (records st)) (rq # rqs)) @ commands st)"
proof (induction rqs arbitrary: rq st)
  case Nil
  show ?case by (simp add: run_all_def run_request_commands)
next
  case (Cons rq' rqs)
  let ?f = "run_of (records st)"
  have "run_all (rq # rq' # rqs) st = run_all (rq' # rqs) (run_request st rq)"
    by (simp add: run_all_def)
  then have "commands (run_all (rq # rq' # rqs) st) =
        take 200 (rev (map ?f (rq' # rqs)) @ take 200 (?f rq # commands st))"
    by (simp only: Cons.IH run_request_records run_request_commands)
  also have "\<dots> = take 200 (rev (map ?f (rq' # rqs)) @ (?f rq # commands st))"
    by (rule take_append_take)
  finally show ?case by simp
qed

lemma take_rev_drop: "n \<le> length xs \<Longrightarrow> take n (rev xs @ ys) = rev (drop (length xs - n) xs)"
  by (simp add: take_rev)

text \<open>
  Claim C6. Every run puts its command run at the front of the history and keeps the
  first 200 entries, so the oldest entries go first. After 200 or more runs, from any
  state, the history has exactly 200 entries: the runs of the last 200 requests, the most
  recent first. If the clock readings of the requests do not decrease in run order, the
  history is ordered by \<^verbatim>\<open>startedAt\<close>, newest first.
\<close>

theorem history_bound:
  "commands (runCommand tail started recordId command st) =
     take 200 (new_run (records st) tail started recordId command # commands st) \<and>
   length (commands (runCommand tail started recordId command st)) \<le> 200 \<and>
   (200 \<le> length rqs \<longrightarrow>
      length (commands (run_all rqs st)) = 200 \<and>
      commands (run_all rqs st) =
        rev (map (run_of (records st)) (drop (length rqs - 200) rqs)) \<and>
      (sorted (map q_started rqs) \<longrightarrow>
         sorted_wrt (\<lambda>a b. c_startedAt b \<le> c_startedAt a) (commands (run_all rqs st))))"
proof (intro conjI impI)
  show "commands (runCommand tail started recordId command st) =
     take 200 (new_run (records st) tail started recordId command # commands st)"
    by (simp add: runCommand_def)
  show "length (commands (runCommand tail started recordId command st)) \<le> 200"
    by (simp add: runCommand_def)
next
  assume len: "200 \<le> length rqs"
  then obtain rq rqs' where rqs: "rqs = rq # rqs'" by (cases rqs) auto
  have "commands (run_all rqs st) = take 200 (rev (map (run_of (records st)) rqs) @ commands st)"
    unfolding rqs by (rule run_all_commands)
  also have "\<dots> = rev (drop (length (map (run_of (records st)) rqs) - 200) (map (run_of (records st)) rqs))"
    using len by (intro take_rev_drop) simp
  also have "\<dots> = rev (map (run_of (records st)) (drop (length rqs - 200) rqs))"
    by (simp add: drop_map)
  finally show eq: "commands (run_all rqs st) =
        rev (map (run_of (records st)) (drop (length rqs - 200) rqs))" .
  show "length (commands (run_all rqs st)) = 200" using len by (simp add: eq)
  assume srt: "sorted (map q_started rqs)"
  have st_of: "c_startedAt (run_of recs q) = q_started q" for recs q
    by (simp add: run_of_def new_run_def)
  have "sorted (map q_started (drop (length rqs - 200) rqs))"
    using srt by (simp add: drop_map[symmetric] sorted_wrt_drop)
  then have "sorted (rev (map c_startedAt (commands (run_all rqs st))))"
    by (simp add: eq rev_map comp_def st_of)
  then have "sorted_wrt (\<lambda>a b. b \<le> a) (map c_startedAt (commands (run_all rqs st)))"
    by (simp add: sorted_wrt_rev)
  then show "sorted_wrt (\<lambda>a b. c_startedAt b \<le> c_startedAt a) (commands (run_all rqs st))"
    by (simp add: sorted_wrt_map)
qed

theorem history_bound_witness:
  "length (commands (run_all (request_a # replicate 200 request_b) example_state)) = 200 \<and>
   commands (run_all (request_a # replicate 200 request_b) example_state) =
     replicate 200 (run_of (records example_state) request_b) \<and>
   sorted_wrt (\<lambda>a b. c_startedAt b \<le> c_startedAt a)
     (commands (run_all (request_a # replicate 200 request_b) example_state))"
proof -
  let ?rqs = "request_a # replicate 200 request_b"
  have len: "200 \<le> length ?rqs" by simp
  have srt: "sorted (map q_started ?rqs)"
    by (simp add: request_a_def request_b_def)
  have kept: "rev (map (run_of (records example_state)) (drop (length ?rqs - 200) ?rqs)) =
      replicate 200 (run_of (records example_state) request_b)"
    by simp
  from history_bound [of "''x1''" "''t3''" None "''check''" example_state ?rqs] len srt
  have "length (commands (run_all ?rqs example_state)) = 200"
    and "commands (run_all ?rqs example_state) =
      rev (map (run_of (records example_state)) (drop (length ?rqs - 200) ?rqs))"
    and "sorted_wrt (\<lambda>a b. c_startedAt b \<le> c_startedAt a) (commands (run_all ?rqs example_state))"
    by blast+
  then show ?thesis by (simp only: kept simp_thms)
qed

section \<open>Deleting and creating records\<close>

text \<open>
  Claim C5, as amended. After \<open>handleDelete ident\<close> no record has the identifier and no
  command run refers to it. If no record had the identifier, the record collection is
  unchanged; if moreover no command run referred to it, the whole state is unchanged.
  Deleting twice gives the state that deleting once gives. Nothing is raised.
\<close>

theorem delete_cascade:
  "(\<forall>r \<in> set (records (snd (handleDelete ident st))). r_id r \<noteq> ident) \<and>
   (\<forall>c \<in> set (commands (snd (handleDelete ident st))). c_recordId c \<noteq> Some ident) \<and>
   ((\<forall>r \<in> set (records st). r_id r \<noteq> ident) \<longrightarrow>
      records (snd (handleDelete ident st)) = records st) \<and>
   ((\<forall>r \<in> set (records st). r_id r \<noteq> ident) \<and>
    (\<forall>c \<in> set (commands st). c_recordId c \<noteq> Some ident) \<longrightarrow>
      snd (handleDelete ident st) = st) \<and>
   snd (handleDelete ident (snd (handleDelete ident st))) = snd (handleDelete ident st)"
proof (intro conjI impI)
  show "\<forall>r \<in> set (records (snd (handleDelete ident st))). r_id r \<noteq> ident"
    by (simp add: handleDelete_def)
  show "\<forall>c \<in> set (commands (snd (handleDelete ident st))). c_recordId c \<noteq> Some ident"
    by (simp add: handleDelete_def)
  show "snd (handleDelete ident (snd (handleDelete ident st))) = snd (handleDelete ident st)"
    by (simp add: handleDelete_def)
next
  assume "\<forall>r \<in> set (records st). r_id r \<noteq> ident"
  then show "records (snd (handleDelete ident st)) = records st"
    by (simp add: handleDelete_def filter_id_conv)
next
  assume "(\<forall>r \<in> set (records st). r_id r \<noteq> ident) \<and>
    (\<forall>c \<in> set (commands st). c_recordId c \<noteq> Some ident)"
  then show "snd (handleDelete ident st) = st"
    by (simp add: handleDelete_def filter_id_conv)
qed

theorem delete_cascade_witness:
  "records (snd (handleDelete ''rec_a'' (runCommand ''x1'' ''t3'' (Some ''rec_a'') ''check'' example_state)))
     = [\<lparr>r_id = ''rec_b'', r_label = Some ''Sample-1'', r_value = 4, r_createdAt = ''t2''\<rparr>] \<and>
   commands (snd (handleDelete ''rec_a'' (runCommand ''x1'' ''t3'' (Some ''rec_a'') ''check'' example_state)))
     = [] \<and>
   snd (handleDelete ''rec_q'' example_state) = example_state \<and>
   records (snd (handleDelete ''rec_z'' dangling_state)) = records dangling_state"
proof -
  let ?st = "runCommand ''x1'' ''t3'' (Some ''rec_a'') ''check'' example_state"
  have a: "\<forall>r \<in> set (records example_state). r_id r \<noteq> ''rec_q''"
    by (simp add: example_state_def record_a_def record_b_def)
  have b: "\<forall>c \<in> set (commands example_state). c_recordId c \<noteq> Some ''rec_q''"
    by (simp add: example_state_def record_a_def record_b_def)
  have c: "\<forall>r \<in> set (records dangling_state). r_id r \<noteq> ''rec_z''"
    by (simp add: dangling_state_def runCommand_def)
  have "snd (handleDelete ''rec_q'' example_state) = example_state"
    using delete_cascade [of "''rec_q''" example_state] a b by blast
  moreover have "records (snd (handleDelete ''rec_z'' dangling_state)) = records dangling_state"
    using delete_cascade [of "''rec_z''" dangling_state] c by blast
  moreover have "records (snd (handleDelete ''rec_a'' ?st))
     = [\<lparr>r_id = ''rec_b'', r_label = Some ''Sample-1'', r_value = 4, r_createdAt = ''t2''\<rparr>]"
    by (simp add: handleDelete_def runCommand_def example_state_def record_a_def record_b_def)
  moreover have "commands (snd (handleDelete ''rec_a'' ?st)) = []"
    by (simp add: handleDelete_def runCommand_def example_state_def new_run_def record_a_def
        record_b_def)
  ultimately show ?thesis by blast
qed

text \<open>
  Claim C5 as first stated says that deleting an absent identifier is a no-op. In the state
  reached from the empty state by a \<^verbatim>\<open>check\<close> on an unknown identifier, no record has
  that identifier, and deleting it empties the history.
\<close>

theorem delete_absent_counterexample:
  "records dangling_state = [] \<and> commands dangling_state \<noteq> [] \<and>
   commands (snd (handleDelete ''rec_z'' dangling_state)) = [] \<and>
   snd (handleDelete ''rec_z'' dangling_state) \<noteq> dangling_state"
proof -
  have a: "records dangling_state = []" by (simp add: dangling_state_def runCommand_def)
  have b: "commands dangling_state \<noteq> []" by (simp add: dangling_state_def runCommand_def)
  have c: "commands (snd (handleDelete ''rec_z'' dangling_state)) = []"
    by (simp add: dangling_state_def runCommand_def handleDelete_def new_run_def)
  from b c have "snd (handleDelete ''rec_z'' dangling_state) \<noteq> dangling_state" by auto
  with a b c show ?thesis by blast
qed

text \<open>
  Claim C9. \<open>handleCreate\<close> reports the error exactly when the value is not an integer, and
  then leaves the state as it was. For an integer it puts exactly one new record at the
  front of the collection: the label trimmed, an empty label made absent, and the history
  untouched.
\<close>

theorem create_validated:
  "(fst (handleCreate tail now lbl v st) = Note_error ''Value must be an integer''
      \<longleftrightarrow> v = NonInteger) \<and>
   (v = NonInteger \<longrightarrow> snd (handleCreate tail now lbl v st) = st) \<and>
   (\<forall>n. v = Integer n \<longrightarrow>
      snd (handleCreate tail now lbl v st) =
        st\<lparr>records :=
             \<lparr>r_id = uid ''rec'' tail,
              r_label = (case lbl of None \<Rightarrow> None
                         | Some s \<Rightarrow> if trim s = [] then None else Some (trim s)),
              r_value = n, r_createdAt = now\<rparr> # records st\<rparr> \<and>
      length (records (snd (handleCreate tail now lbl v st))) = length (records st) + 1)"
  by (cases v) (simp_all add: Let_def normalise_label_def)

theorem create_validated_witness:
  "snd (handleCreate ''abc'' ''t9'' (Some '' x '') NonInteger example_state) = example_state \<and>
   fst (handleCreate ''abc'' ''t9'' (Some '' x '') NonInteger example_state)
     = Note_error ''Value must be an integer'' \<and>
   snd (handleCreate ''abc'' ''t9'' (Some '' x '') (Integer 12) example_state) =
     example_state\<lparr>records :=
       \<lparr>r_id = ''rec_abc'', r_label = Some ''x'', r_value = 12, r_createdAt = ''t9''\<rparr>
       # records example_state\<rparr> \<and>
   snd (handleCreate ''abc'' ''t9'' (Some ''  '') (Integer 12) example_state) =
     example_state\<lparr>records :=
       \<lparr>r_id = ''rec_abc'', r_label = None, r_value = 12, r_createdAt = ''t9''\<rparr>
       # records example_state\<rparr>"
proof -
  have t1: "trim '' x '' = ''x''" by code_simp
  have t2: "trim ''  '' = []" by code_simp
  show ?thesis
    using create_validated [of "''abc''" "''t9''" "Some '' x ''" NonInteger example_state]
      create_validated [of "''abc''" "''t9''" "Some '' x ''" "Integer 12" example_state]
      create_validated [of "''abc''" "''t9''" "Some ''  ''" "Integer 12" example_state]
    by (simp add: t1 t2 uid_def)
qed

section \<open>The filtered list\<close>

lemma trim_empty_iff: "trim s = [] \<longleftrightarrow> (\<forall>c \<in> set s. is_space c)"
proof
  assume "\<forall>c \<in> set s. is_space c"
  then show "trim s = []" by (auto simp: trim_def dest: set_dropWhileD)
next
  assume "trim s = []"
  then have all: "\<forall>c \<in> set (dropWhile is_space s). is_space c"
    by (simp add: trim_def)
  have "dropWhile is_space s = []"
  proof (rule ccontr)
    assume ne: "dropWhile is_space s \<noteq> []"
    then have "\<not> is_space (hd (dropWhile is_space s))" by (rule hd_dropWhile)
    moreover have "hd (dropWhile is_space s) \<in> set (dropWhile is_space s)"
      using ne by (rule hd_in_set)
    ultimately show False using all by blast
  qed
  then show "\<forall>c \<in> set s. is_space c" by simp
qed

lemma toLowerCase_empty_iff: "toLowerCase s = [] \<longleftrightarrow> s = []"
  by (simp add: toLowerCase_def)

lemma is_space_lower: "is_space (toLowerCase_char c) = is_space c"
proof (cases "65 \<le> (of_char c :: nat) \<and> (of_char c :: nat) \<le> 90")
  case False
  then show ?thesis by (auto simp: toLowerCase_char_def Let_def)
next
  case True
  then have "(of_char c + 32 :: nat) mod 256 = of_char c + 32" by simp
  with True show ?thesis by (auto simp: toLowerCase_char_def Let_def is_space_def)
qed

lemma dropWhile_lower:
  "dropWhile is_space (map toLowerCase_char s) = map toLowerCase_char (dropWhile is_space s)"
  by (induction s) (simp_all add: is_space_lower)

lemma trim_lower: "trim (toLowerCase s) = toLowerCase (trim s)"
  by (simp add: trim_def toLowerCase_def dropWhile_lower rev_map)

lemma sublist_trim: "sublist (trim s) s"
proof -
  have "suffix (dropWhile is_space s) s" by (rule suffix_dropWhile)
  moreover have "suffix (dropWhile is_space (rev (dropWhile is_space s))) (rev (dropWhile is_space s))"
    by (rule suffix_dropWhile)
  then have "prefix (trim s) (dropWhile is_space s)"
    by (simp add: trim_def suffix_to_prefix)
  ultimately show ?thesis
    by (meson prefix_imp_sublist suffix_imp_sublist sublist_order.order_trans)
qed

lemma sublist_lower: "sublist s t \<Longrightarrow> sublist (toLowerCase s) (toLowerCase t)"
  by (simp add: toLowerCase_def map_mono_sublist)


lemma lower_digit: "d < 10 \<Longrightarrow> toLowerCase_char (digit_char d) = digit_char d"
  by (simp add: toLowerCase_char_def digit_char_def Let_def)

lemma digits_chars: "c \<in> set (digits n) \<Longrightarrow> \<exists>d<10. c = digit_char d"
proof (induction n rule: digits.induct)
  case (1 n)
  show ?case
  proof (cases "n < 10")
    case True
    with "1.prems" show ?thesis by (subst (asm) digits.simps) auto
  next
    case False
    with "1.prems" have "c \<in> set (digits (n div 10)) \<or> c = digit_char (n mod 10)"
      by (subst (asm) digits.simps) auto
    then show ?thesis
    proof
      assume "c \<in> set (digits (n div 10))"
      with False "1.IH" show ?thesis by blast
    next
      assume "c = digit_char (n mod 10)"
      moreover have "n mod 10 < 10" by simp
      ultimately show ?thesis by blast
    qed
  qed
qed

lemma String_int_chars:
  assumes "c \<in> set (String_int v)"
  shows "toLowerCase_char c = c"
proof -
  from assms have "c = CHR ''-'' \<or> (\<exists>d<10. c = digit_char d)"
    by (auto simp: String_int_def dest: digits_chars split: if_splits)
  then show ?thesis
    by (auto simp: lower_digit) (simp add: toLowerCase_char_def)
qed

lemma lower_sublist_of_number:
  assumes "sublist s (String_int v)"
  shows "toLowerCase s = s"
proof -
  from assms have "set s \<subseteq> set (String_int v)" by (rule set_mono_sublist)
  then have "\<forall>c \<in> set s. toLowerCase_char c = c" using String_int_chars by blast
  then show ?thesis by (simp add: toLowerCase_def map_idI)
qed


lemma filtered_blank: "(\<forall>c \<in> set query. is_space c) \<Longrightarrow> filtered query recs = recs"
  by (simp add: filtered_def Let_def trim_empty_iff[symmetric] toLowerCase_empty_iff)

lemma filtered_nonblank:
  "\<not> (\<forall>c \<in> set query. is_space c) \<Longrightarrow>
   filtered query recs = filter (matches (toLowerCase (trim query))) recs"
  by (simp add: filtered_def Let_def trim_empty_iff[symmetric] toLowerCase_empty_iff)

lemma filtered_subseq: "subseq (filtered query recs) recs"
  by (simp add: filtered_def Let_def)

lemma filtered_case: 
  assumes "toLowerCase query' = toLowerCase query"
  shows "filtered query' recs = filtered query recs"
proof -
  have "toLowerCase (trim query') = toLowerCase (trim query)"
    using assms by (simp add: trim_lower[symmetric])
  then show ?thesis by (simp add: filtered_def)
qed

lemma filtered_finds:
  assumes r: "r \<in> set recs"
    and s: "r_label r = Some l \<and> sublist s l \<or> sublist s (String_int (r_value r)) \<or> sublist s (r_id r)"
  shows "r \<in> set (filtered s recs)"
proof (cases "\<forall>c \<in> set s. is_space c")
  case True
  with r show ?thesis by (simp add: filtered_blank)
next
  case False
  have tr: "sublist (trim s) s" by (rule sublist_trim)
  have "matches (toLowerCase (trim s)) r"
    using s
  proof (elim disjE conjE)
    assume "r_label r = Some l" "sublist s l"
    with tr have "sublist (toLowerCase (trim s)) (toLowerCase l)"
      by (meson sublist_lower sublist_order.order_trans)
    with \<open>r_label r = Some l\<close> show ?thesis by (simp add: matches_def str_includes_def)
  next
    assume v: "sublist s (String_int (r_value r))"
    with tr have t: "sublist (trim s) (String_int (r_value r))"
      by (meson sublist_order.order_trans)
    then have "toLowerCase (trim s) = trim s" by (rule lower_sublist_of_number)
    with t show ?thesis by (simp add: matches_def str_includes_def)
  next
    assume "sublist s (r_id r)"
    with tr have "sublist (toLowerCase (trim s)) (toLowerCase (r_id r))"
      by (meson sublist_lower sublist_order.order_trans)
    then show ?thesis by (simp add: matches_def str_includes_def)
  qed
  with r False show ?thesis by (simp add: filtered_nonblank)
qed

text \<open>
  Claim C7, as amended. The query is trimmed and put in lower case first. If it is empty or
  all white space, every record is returned, in order. Otherwise a record is returned
  exactly when the lower-cased label (if there is one), the decimal form of the value, or
  the lower-cased identifier contains the trimmed, lower-cased query. The result keeps the
  order of the collection, two queries that differ only in case give the same result, and
  a query cut out of a record's label, value or identifier finds that record.
\<close>

theorem filtered_search:
  "((\<forall>c \<in> set query. is_space c) \<longrightarrow> filtered query recs = recs) \<and>
   (\<not> (\<forall>c \<in> set query. is_space c) \<longrightarrow>
      filtered query recs =
        filter (\<lambda>r. (case r_label r of None \<Rightarrow> False
                      | Some l \<Rightarrow> sublist (toLowerCase (trim query)) (toLowerCase l)) \<or>
                    sublist (toLowerCase (trim query)) (String_int (r_value r)) \<or>
                    sublist (toLowerCase (trim query)) (toLowerCase (r_id r))) recs) \<and>
   subseq (filtered query recs) recs \<and>
   (toLowerCase query' = toLowerCase query \<longrightarrow> filtered query' recs = filtered query recs) \<and>
   (r \<in> set recs \<and>
    (r_label r = Some l \<and> sublist s l \<or> sublist s (String_int (r_value r)) \<or> sublist s (r_id r))
      \<longrightarrow> r \<in> set (filtered s recs))"
proof (intro conjI impI)
  assume "\<forall>c \<in> set query. is_space c"
  then show "filtered query recs = recs" by (rule filtered_blank)
next
  assume "\<not> (\<forall>c \<in> set query. is_space c)"
  then have "filtered query recs = filter (matches (toLowerCase (trim query))) recs"
    by (rule filtered_nonblank)
  also have "matches (toLowerCase (trim query)) =
     (\<lambda>r. (case r_label r of None \<Rightarrow> False
                      | Some l \<Rightarrow> sublist (toLowerCase (trim query)) (toLowerCase l)) \<or>
                    sublist (toLowerCase (trim query)) (String_int (r_value r)) \<or>
                    sublist (toLowerCase (trim query)) (toLowerCase (r_id r)))"
    by (rule ext) (simp add: matches_def str_includes_def split: option.splits)
  finally show "filtered query recs =
        filter (\<lambda>r. (case r_label r of None \<Rightarrow> False
                      | Some l \<Rightarrow> sublist (toLowerCase (trim query)) (toLowerCase l)) \<or>
                    sublist (toLowerCase (trim query)) (String_int (r_value r)) \<or>
                    sublist (toLowerCase (trim query)) (toLowerCase (r_id r))) recs" .
next
  show "subseq (filtered query recs) recs" by (rule filtered_subseq)
next
  assume "toLowerCase query' = toLowerCase query"
  then show "filtered query' recs = filtered query recs" by (rule filtered_case)
next
  assume "r \<in> set recs \<and>
    (r_label r = Some l \<and> sublist s l \<or> sublist s (String_int (r_value r)) \<or> sublist s (r_id r))"
  then show "r \<in> set (filtered s recs)" using filtered_finds by blast
qed

theorem filtered_search_witness:
  "filtered ''   '' [record_b, record_a] = [record_b, record_a] \<and>
   filtered '' SAMPLE '' [record_b, record_a] = [record_b] \<and>
   filtered ''7'' [record_b, record_a] = [record_a] \<and>
   filtered ''c_A'' [record_b, record_a] = [record_a] \<and>
   filtered ''zz'' [record_b, record_a] = [] \<and>
   subseq (filtered ''7'' [record_b, record_a]) [record_b, record_a] \<and>
   filtered ''REC'' [record_b, record_a] = filtered ''rec'' [record_b, record_a] \<and>
   record_b \<in> set (filtered ''ple-'' [record_b, record_a])"
proof -
  let ?recs = "[record_b, record_a]"
  note inst = filtered_search [where recs = "[record_b, record_a]"]
  have blank: "\<forall>c \<in> set ''   ''. is_space c" by (simp add: is_space_def)
  have c1: "filtered ''   '' ?recs = ?recs"
    using inst [of "''   ''" "''7''" record_b "''Sample-1''" "''ple-''"] blank by blast
  have c2: "filtered '' SAMPLE '' ?recs = [record_b]" by code_simp
  have c3: "filtered ''7'' ?recs = [record_a]" by code_simp
  have c4: "filtered ''c_A'' ?recs = [record_a]" by code_simp
  have c5: "filtered ''zz'' ?recs = []" by code_simp
  have c6: "subseq (filtered ''7'' ?recs) ?recs"
    using inst [of "''7''" "''7''" record_b "''Sample-1''" "''ple-''"] by blast
  have low: "toLowerCase ''REC'' = toLowerCase ''rec''" by code_simp
  have c7: "filtered ''REC'' ?recs = filtered ''rec'' ?recs"
    using inst [of "''rec''" "''REC''" record_b "''Sample-1''" "''ple-''"] low by blast
  have sub: "sublist ''ple-'' ''Sample-1''" by code_simp
  have lab: "r_label record_b = Some ''Sample-1''" by (simp add: record_b_def)
  have c8: "record_b \<in> set (filtered ''ple-'' ?recs)"
    using inst [of "''7''" "''7''" record_b "''Sample-1''" "''ple-''"] sub lab by simp
  from c1 c2 c3 c4 c5 c6 c7 c8 show ?thesis by blast
qed

text \<open>
  Claim C7 as first stated matches the fields against the case-folded query. A query with a
  trailing space is contained in no field of the record below, and the record is returned.
\<close>

theorem filtered_untrimmed_counterexample:
  "filtered ''sample '' [record_b] = [record_b] \<and>
   \<not> matches (toLowerCase ''sample '') record_b"
  by code_simp

section \<open>Loading and saving\<close>

subsection \<open>Reading back a printed number\<close>

lemma digits_small: "n < 10 \<Longrightarrow> digits n = [digit_char n]"
  by (subst digits.simps) simp

lemma digits_large: "\<not> n < 10 \<Longrightarrow> digits n = digits (n div 10) @ [digit_char (n mod 10)]"
  by (subst digits.simps) simp

lemma digits_nonempty: "digits n \<noteq> []"
  by (cases "n < 10") (simp_all add: digits_small digits_large)

lemma is_digit_digit_char: "d < 10 \<Longrightarrow> is_digit (digit_char d)"
  by (simp add: is_digit_def digit_char_def)

lemma digit_char_value: "d < 10 \<Longrightarrow> (of_char (digit_char d) :: int) - 48 = int d"
proof -
  assume d: "d < 10"
  have "(of_char (digit_char d) :: int) = int (of_char (digit_char d))"
    by (simp only: of_nat_of_char)
  also have "\<dots> = int (48 + d)" using d by (simp add: digit_char_def)
  finally show ?thesis by simp
qed

lemma digits_all_digit: "list_all is_digit (digits n)"
proof (induction n rule: digits.induct)
  case (1 n)
  show ?case
  proof (cases "n < 10")
    case True
    then show ?thesis by (simp add: digits_small is_digit_digit_char)
  next
    case False
    with "1.IH" show ?thesis by (simp add: digits_large is_digit_digit_char)
  qed
qed

lemma int_of_digits_Nil: "int_of_digits [] = 0"
  by (simp add: int_of_digits_def)

lemma int_of_digits_snoc: "int_of_digits (ds @ [c]) = 10 * int_of_digits ds + (of_char c - 48)"
  by (simp add: int_of_digits_def)

lemma int_of_digits_digits: "int_of_digits (digits n) = int n"
proof (induction n rule: digits.induct)
  case (1 n)
  show ?case
  proof (cases "n < 10")
    case True
    then show ?thesis by (simp add: digits_small int_of_digits_def digit_char_value)
  next
    case False
    have "int_of_digits (digits n) = 10 * int (n div 10) + int (n mod 10)"
      using False "1.IH" by (simp add: digits_large int_of_digits_snoc digit_char_value)
    also have "\<dots> = int (10 * (n div 10) + n mod 10)"
      by (simp only: of_nat_add of_nat_mult of_nat_numeral)
    also have "\<dots> = int n" by simp
    finally show ?thesis .
  qed
qed

lemma digit_char_zero: "d < 10 \<Longrightarrow> digit_char d = CHR ''0'' \<Longrightarrow> d = 0"
proof -
  assume d: "d < 10" and z: "digit_char d = CHR ''0''"
  from d have "(of_char (digit_char d) :: nat) = 48 + d" by (simp add: digit_char_def)
  with z show "d = 0" by simp
qed

lemma digits_leading: "n \<noteq> 0 \<Longrightarrow> hd (digits n) \<noteq> CHR ''0''"
proof (induction n rule: digits.induct)
  case (1 n)
  show ?case
  proof (cases "n < 10")
    case True
    with "1.prems" show ?thesis using digit_char_zero by (auto simp: digits_small)
  next
    case False
    then have "n div 10 \<noteq> 0" by simp
    with "1.IH" False have "hd (digits (n div 10)) \<noteq> CHR ''0''" by simp
    then show ?thesis using False by (simp add: digits_large digits_nonempty)
  qed
qed

lemma digits_no_leading_zero: "\<not> (1 < length (digits n) \<and> hd (digits n) = CHR ''0'')"
proof (cases "n = 0")
  case True
  then show ?thesis by (simp add: digits_small)
next
  case False
  then show ?thesis using digits_leading by blast
qed

lemma ends_value_facts:
  assumes "ends_value rest"
  shows "takeWhile is_digit rest = []" and "dropWhile is_digit rest = rest"
    and "take 1 rest \<noteq> ''.''" and "take 1 rest \<noteq> ''e''" and "take 1 rest \<noteq> ''E''"
  using assms by (auto simp: ends_value_def is_digit_def split: list.splits)

lemma read_digits_text:
  assumes "ends_value rest"
  shows "takeWhile is_digit (digits k @ rest) = digits k"
    and "dropWhile is_digit (digits k @ rest) = rest"
proof -
  have all: "\<forall>c \<in> set (digits k). is_digit c"
    using digits_all_digit [of k] by (simp add: list_all_iff)
  then show "takeWhile is_digit (digits k @ rest) = digits k"
    using ends_value_facts(1)[OF assms] by (simp add: takeWhile_append2)
  from all show "dropWhile is_digit (digits k @ rest) = rest"
    using ends_value_facts(2)[OF assms] by (simp add: dropWhile_append2)
qed

lemma read_number_nat:
  assumes "ends_value rest"
  shows "read_number (digits k @ rest) = Some ((int k, 0), rest)"
proof -
  obtain c cs where dk: "digits k = c # cs" using digits_nonempty by (cases "digits k") auto
  have "is_digit c" using digits_all_digit [of k] by (simp add: dk)
  then have notneg: "take 1 (digits k @ rest) \<noteq> ''-''" by (auto simp: dk is_digit_def)
  show ?thesis
    unfolding read_number_def Let_def
    using notneg read_digits_text[OF assms, of k] ends_value_facts[OF assms]
      digits_nonempty [of k] digits_no_leading_zero [of k]
    by (simp add: int_of_digits_digits int_of_digits_Nil)
qed

lemma read_number_neg:
  assumes "ends_value rest"
  shows "read_number (CHR ''-'' # digits k @ rest) = Some ((- int k, 0), rest)"
  unfolding read_number_def Let_def
  using read_digits_text[OF assms, of k] ends_value_facts[OF assms]
    digits_nonempty [of k] digits_no_leading_zero [of k]
  by (simp add: int_of_digits_digits int_of_digits_Nil)

lemma read_number_String_int:
  assumes "ends_value rest"
  shows "read_number (String_int n @ rest) = Some ((n, 0), rest)"
proof (cases "n < 0")
  case True
  then show ?thesis using read_number_neg[OF assms, of "nat (- n)"] by (simp add: String_int_def)
next
  case False
  then show ?thesis using read_number_nat[OF assms, of "nat n"] by (simp add: String_int_def)
qed

subsection \<open>Reading back a printed string\<close>

lemma char_eqI: "(of_char c :: nat) = of_char d \<Longrightarrow> c = d"
  by simp

lemma hex_value_hex_digit: "d < 16 \<Longrightarrow> hex_value (hex_digit d) = Some d"
  by (auto simp: hex_value_def hex_digit_def Let_def)

lemma hex4_escape:
  assumes "k < 32"
  shows "hex4 [CHR ''0'', CHR ''0'', hex_digit (k div 16), hex_digit (k mod 16)] = Some k"
proof -
  have z: "hex_value (CHR ''0'') = Some 0" by (simp add: hex_value_def)
  have a: "hex_value (hex_digit (k div 16)) = Some (k div 16)"
    using assms by (intro hex_value_hex_digit) simp
  have b: "hex_value (hex_digit (k mod 16)) = Some (k mod 16)"
    by (intro hex_value_hex_digit) simp
  show ?thesis by (simp add: hex4_def z a b)
qed

lemma read_string_escape_char:
  "read_string (escape_char c @ t) =
     (case read_string t of None \<Rightarrow> None | Some (s, r) \<Rightarrow> Some (c # s, r))"
proof -
  define k where "k = (of_char c :: nat)"
  have c: "c = char_of k" by (simp add: k_def)
  consider "k = 34" | "k = 92" | "k = 8" | "k = 9" | "k = 10" | "k = 12" | "k = 13"
    | "k < 32" "k \<notin> {8, 9, 10, 12, 13}" | "32 \<le> k" "k \<noteq> 34" "k \<noteq> 92"
    by force
  then show ?thesis
  proof cases
    case 1
    then have "c = CHR 0x22" unfolding k_def by (intro char_eqI) simp
    then show ?thesis by (simp add: escape_char_def unescape_def split: option.splits)
  next
    case 2
    then have "c = CHR 0x5C" unfolding k_def by (intro char_eqI) simp
    then show ?thesis by (simp add: escape_char_def unescape_def split: option.splits)
  next
    case 3
    then have "c = CHR 0x08" unfolding k_def by (intro char_eqI) simp
    then show ?thesis by (simp add: escape_char_def unescape_def split: option.splits)
  next
    case 4
    then have "c = CHR 0x09" unfolding k_def by (intro char_eqI) simp
    then show ?thesis by (simp add: escape_char_def unescape_def split: option.splits)
  next
    case 5
    then have "c = CHR 0x0A" unfolding k_def by (intro char_eqI) simp
    then show ?thesis by (simp add: escape_char_def unescape_def split: option.splits)
  next
    case 6
    then have "c = CHR 0x0C" unfolding k_def by (intro char_eqI) simp
    then show ?thesis by (simp add: escape_char_def unescape_def split: option.splits)
  next
    case 7
    then have "c = CHR 0x0D" unfolding k_def by (intro char_eqI) simp
    then show ?thesis by (simp add: escape_char_def unescape_def split: option.splits)
  next
    case 8
    then have esc: "escape_char c =
        [CHR 0x5C, CHR ''u'', CHR ''0'', CHR ''0'', hex_digit (k div 16), hex_digit (k mod 16)]"
      by (simp add: escape_char_def k_def [symmetric])
    have u: "utf8 k = [c]" using 8 by (simp add: utf8_def c)
    show ?thesis
      unfolding esc using 8(1) by (simp add: hex4_escape u split: option.splits)
  next
    case 9
    then have esc: "escape_char c = [c]"
      by (simp add: escape_char_def k_def [symmetric])
    from 9 have "c \<noteq> CHR 0x22" "c \<noteq> CHR 0x5C" "\<not> (of_char c :: nat) < 32"
      by (auto simp: k_def)
    then show ?thesis unfolding esc by (simp split: option.splits)
  qed
qed

lemma read_string_escaped:
  "read_string (concat (map escape_char s) @ CHR 0x22 # rest) = Some (s, rest)"
  by (induction s) (simp_all add: read_string_escape_char)

lemma read_string_quote: "read_string (tl (quote s) @ rest) = Some (s, rest)"
  by (simp add: quote_def read_string_escaped)

subsection \<open>Parsing a printed value\<close>

lemma skip_ws_Cons: "\<not> json_space c \<Longrightarrow> skip_ws (c # s) = c # s"
  by (simp add: skip_ws_def)

lemma String_int_first: "\<exists>c cs. String_int n = c # cs \<and> (c = CHR ''-'' \<or> is_digit c)"
proof (cases "n < 0")
  case True
  then show ?thesis by (simp add: String_int_def)
next
  case False
  obtain c cs where dk: "digits (nat n) = c # cs"
    using digits_nonempty by (cases "digits (nat n)") auto
  have "is_digit c" using digits_all_digit [of "nat n"] by (simp add: dk)
  with False dk show ?thesis by (simp add: String_int_def)
qed

lemma number_char_facts:
  assumes "c = CHR ''-'' \<or> is_digit c"
  shows "\<not> json_space c" and "c \<noteq> CHR ''n''" and "c \<noteq> CHR ''t''" and "c \<noteq> CHR ''f''"
    and "c \<noteq> CHR 0x22" and "c \<noteq> CHR ''[''" and "c \<noteq> CHR ''{''" and "c \<noteq> CHR '']''"
    and "c \<noteq> CHR ''}''"
  using assms by (auto simp: is_digit_def json_space_def)

lemma parse_value_null: "parse_value (Suc f) (''null'' @ rest) = Some (JNull, rest)"
  by (simp add: skip_ws_def json_space_def)

lemma parse_value_true: "parse_value (Suc f) (''true'' @ rest) = Some (JBool True, rest)"
  by (simp add: skip_ws_def json_space_def)

lemma parse_value_false: "parse_value (Suc f) (''false'' @ rest) = Some (JBool False, rest)"
  by (simp add: skip_ws_def json_space_def)

lemma parse_value_string: "parse_value (Suc f) (quote s @ rest) = Some (JString s, rest)"
proof -
  have q: "quote s @ rest = CHR 0x22 # (concat (map escape_char s) @ CHR 0x22 # rest)"
    by (simp add: quote_def)
  show ?thesis
    unfolding q by (simp add: skip_ws_def json_space_def read_string_escaped)
qed

lemma parse_value_number:
  assumes "ends_value rest"
  shows "parse_value (Suc f) (String_int n @ rest) = Some (JNumber n 0, rest)"
proof -
  obtain c cs where s: "String_int n = c # cs" and c: "c = CHR ''-'' \<or> is_digit c"
    using String_int_first by blast
  note nc = number_char_facts[OF c]
  have t: "skip_ws (String_int n @ rest) = String_int n @ rest"
    by (simp add: s skip_ws_Cons nc)
  have conds: "\<not> prefix ''null'' (String_int n @ rest)" "\<not> prefix ''true'' (String_int n @ rest)"
    "\<not> prefix ''false'' (String_int n @ rest)" "take 1 (String_int n @ rest) \<noteq> [CHR 0x22]"
    "take 1 (String_int n @ rest) \<noteq> ''[''" "take 1 (String_int n @ rest) \<noteq> ''{''"
    using nc by (auto simp: s)
  show ?thesis
    by (simp only: parse_value.simps Let_def t conds if_False read_number_String_int[OF assms]
        option.case prod.case)
qed

lemma stringify_first:
  assumes "storable v"
  shows "\<exists>c cs. JSON_stringify v = c # cs \<and> \<not> json_space c \<and> c \<noteq> CHR '']'' \<and> c \<noteq> CHR ''}''"
proof (cases v)
  case (JNumber m d)
  with assms have d: "d = 0" by simp
  obtain c cs where s: "String_int m = c # cs" and c: "c = CHR ''-'' \<or> is_digit c"
    using String_int_first by blast
  from number_char_facts[OF c] s show ?thesis
    by (simp add: JNumber d Number_toString_def)
qed (auto simp: json_space_def quote_def)

lemma parse_elements_text:
  assumes each: "\<And>v f rest. v \<in> set (v0 # vs) \<Longrightarrow> ends_value rest \<Longrightarrow>
      2 * length (JSON_stringify v @ rest) + 1 \<le> f \<Longrightarrow>
      parse_value f (JSON_stringify v @ rest) = Some (v, rest)"
    and fuel: "2 * length (JSON_stringify v0 @ concat (map (\<lambda>y. '','' @ JSON_stringify y) vs)
        @ '']'' @ rest) + 2 \<le> f"
  shows "parse_elements f (JSON_stringify v0 @ concat (map (\<lambda>y. '','' @ JSON_stringify y) vs)
        @ '']'' @ rest) = Some (v0 # vs, rest)"
  using assms
proof (induction vs arbitrary: v0 f)
  case Nil
  obtain f' where f: "f = Suc f'" using Nil.prems(2) by (cases f) auto
  have "parse_value f' (JSON_stringify v0 @ (CHR '']'' # rest)) = Some (v0, CHR '']'' # rest)"
    using Nil.prems(2) by (intro Nil.prems(1)) (auto simp: ends_value_def f)
  then show ?case by (simp add: f skip_ws_def json_space_def)
next
  case (Cons v1 vs)
  obtain f' where f: "f = Suc f'" using Cons.prems(2) by (cases f) auto
  define tail where
    "tail = JSON_stringify v1 @ concat (map (\<lambda>y. '','' @ JSON_stringify y) vs) @ '']'' @ rest"
  have shape: "JSON_stringify v0 @ concat (map (\<lambda>y. '','' @ JSON_stringify y) (v1 # vs))
        @ '']'' @ rest = JSON_stringify v0 @ (CHR '','' # tail)"
    by (simp add: tail_def)
  have len: "2 * length (JSON_stringify v0 @ (CHR '','' # tail)) + 2 \<le> f"
    using Cons.prems(2) unfolding shape .
  have pv: "parse_value f' (JSON_stringify v0 @ (CHR '','' # tail)) = Some (v0, CHR '','' # tail)"
    using len by (intro Cons.prems(1)) (auto simp: ends_value_def f)
  have pe: "parse_elements f' tail = Some (v1 # vs, rest)"
    unfolding tail_def
  proof (rule Cons.IH)
    show "2 * length (JSON_stringify v1 @ concat (map (\<lambda>y. '','' @ JSON_stringify y) vs)
        @ '']'' @ rest) + 2 \<le> f'"
      using len by (simp add: f tail_def)
  next
    fix v f rest
    assume "v \<in> set (v1 # vs)" "ends_value rest" "2 * length (JSON_stringify v @ rest) + 1 \<le> f"
    then show "parse_value f (JSON_stringify v @ rest) = Some (v, rest)"
      by (intro Cons.prems(1)) auto
  qed
  show ?case
    unfolding shape f by (simp add: pv pe skip_ws_def json_space_def)
qed

lemma parse_members_step:
  assumes pv: "parse_value f (JSON_stringify v @ tail) = Some (v, tail)"
  shows "parse_members (Suc f) (member_text (k, v) @ tail) =
     (if take 1 (skip_ws tail) = '','' then
        (case parse_members f (drop 1 (skip_ws tail)) of
           None \<Rightarrow> None | Some (ms, r) \<Rightarrow> Some ((k, v) # ms, r))
      else if take 1 (skip_ws tail) = ''}'' then Some ([(k, v)], drop 1 (skip_ws tail))
      else None)"
proof -
  have q: "member_text (k, v) @ tail =
      CHR 0x22 # (concat (map escape_char k) @ CHR 0x22 # (CHR '':'' # JSON_stringify v @ tail))"
    by (simp add: member_text_def quote_def)
  show ?thesis
    unfolding q
    by (simp add: skip_ws_def json_space_def read_string_escaped pv Let_def)
qed

lemma parse_members_text:
  assumes each: "\<And>m f rest. m \<in> set (m0 # ms) \<Longrightarrow> ends_value rest \<Longrightarrow>
      2 * length (JSON_stringify (snd m) @ rest) + 1 \<le> f \<Longrightarrow>
      parse_value f (JSON_stringify (snd m) @ rest) = Some (snd m, rest)"
    and fuel: "2 * length (member_text m0 @ concat (map (\<lambda>y. '','' @ member_text y) ms)
        @ ''}'' @ rest) + 2 \<le> f"
  shows "parse_members f (member_text m0 @ concat (map (\<lambda>y. '','' @ member_text y) ms)
        @ ''}'' @ rest) = Some (m0 # ms, rest)"
  using assms
proof (induction ms arbitrary: m0 f)
  case Nil
  obtain f' where f: "f = Suc f'" using Nil.prems(2) by (cases f) auto
  obtain k v where m0: "m0 = (k, v)" by (cases m0)
  have "parse_value f' (JSON_stringify v @ (CHR ''}'' # rest)) = Some (v, CHR ''}'' # rest)"
    using Nil.prems(1)[of m0 "CHR ''}'' # rest" f'] Nil.prems(2)
    by (auto simp: ends_value_def f m0 member_text_def)
  from parse_members_step[OF this, of k] show ?case
    by (simp add: f m0 skip_ws_def json_space_def)
next
  case (Cons m1 ms)
  obtain f' where f: "f = Suc f'" using Cons.prems(2) by (cases f) auto
  obtain k v where m0: "m0 = (k, v)" by (cases m0)
  define tail where
    "tail = member_text m1 @ concat (map (\<lambda>y. '','' @ member_text y) ms) @ ''}'' @ rest"
  have shape: "member_text m0 @ concat (map (\<lambda>y. '','' @ member_text y) (m1 # ms))
        @ ''}'' @ rest = member_text (k, v) @ (CHR '','' # tail)"
    by (simp add: tail_def m0)
  have len: "2 * length (member_text (k, v) @ (CHR '','' # tail)) + 2 \<le> f"
    using Cons.prems(2) unfolding shape .
  have pv: "parse_value f' (JSON_stringify v @ (CHR '','' # tail)) = Some (v, CHR '','' # tail)"
    using Cons.prems(1)[of m0 "CHR '','' # tail" f'] len
    by (auto simp: ends_value_def f m0 member_text_def)
  have pm: "parse_members f' tail = Some (m1 # ms, rest)"
    unfolding tail_def
  proof (rule Cons.IH)
    show "2 * length (member_text m1 @ concat (map (\<lambda>y. '','' @ member_text y) ms)
        @ ''}'' @ rest) + 2 \<le> f'"
      using len by (simp add: f tail_def)
  next
    fix m f rest
    assume "m \<in> set (m1 # ms)" "ends_value rest"
      "2 * length (JSON_stringify (snd m) @ rest) + 1 \<le> f"
    then show "parse_value f (JSON_stringify (snd m) @ rest) = Some (snd m, rest)"
      by (intro Cons.prems(1)) auto
  qed
  from parse_members_step[OF pv, of k] show ?case
    unfolding shape f by (simp add: pm m0 skip_ws_def json_space_def)
qed

lemma put_fresh:
  "k \<notin> fst ` set acc \<Longrightarrow> \<not> is_index k \<Longrightarrow> put k v acc = acc @ [(k, v)]"
  by (induction acc) auto

lemma foldl_put_fresh:
  "distinct (map fst (acc @ ms)) \<Longrightarrow> list_all (\<lambda>m. \<not> is_index (fst m)) ms \<Longrightarrow>
   foldl (\<lambda>acc m. put (fst m) (snd m) acc) acc ms = acc @ ms"
proof (induction ms arbitrary: acc)
  case Nil
  show ?case by simp
next
  case (Cons m ms)
  have "put (fst m) (snd m) acc = acc @ [m]"
    using Cons.prems by (intro put_fresh [THEN trans]) auto
  moreover have "foldl (\<lambda>acc m. put (fst m) (snd m) acc) (acc @ [m]) ms = (acc @ [m]) @ ms"
    using Cons.prems by (intro Cons.IH) auto
  ultimately show ?case by simp
qed

lemma object_of_storable:
  "distinct (map fst ms) \<Longrightarrow> list_all (\<lambda>m. \<not> is_index (fst m)) ms \<Longrightarrow> object_of ms = JObject ms"
  using foldl_put_fresh [of "[]" ms] by (simp add: object_of_def)

lemma stringify_array_Cons:
  "JSON_stringify (JArray (v0 # vs)) @ rest =
     CHR ''['' # (JSON_stringify v0 @ concat (map (\<lambda>y. '','' @ JSON_stringify y) vs) @ '']'' @ rest)"
  by (simp add: join_Cons comp_def)

lemma stringify_object_Cons:
  "JSON_stringify (JObject (m0 # ms)) @ rest =
     CHR ''{'' # (member_text m0 @ concat (map (\<lambda>y. '','' @ member_text y) ms) @ ''}'' @ rest)"
  by (simp add: join_Cons comp_def member_text_def)

lemma parse_value_array:
  assumes body: "body = c # cs" "\<not> json_space c" "c \<noteq> CHR '']''"
    and pe: "parse_elements f body = Some (vs, rest)"
  shows "parse_value (Suc f) (CHR ''['' # body) = Some (JArray vs, rest)"
proof -
  have sb: "skip_ws body = body" using body by (simp add: skip_ws_Cons)
  have nb: "take 1 body \<noteq> '']''" using body by simp
  have so: "skip_ws (CHR ''['' # body) = CHR ''['' # body"
    by (simp add: skip_ws_def json_space_def)
  show ?thesis
    using sb nb pe by (simp only: parse_value.simps Let_def so) simp
qed

lemma parse_value_object:
  assumes body: "body = CHR 0x22 # cs"
    and pm: "parse_members f body = Some (ms, rest)"
  shows "parse_value (Suc f) (CHR ''{'' # body) = Some (object_of ms, rest)"
proof -
  have sb: "skip_ws body = body" using body by (simp add: skip_ws_def json_space_def)
  have nb: "take 1 body \<noteq> ''}''" using body by simp
  have so: "skip_ws (CHR ''{'' # body) = CHR ''{'' # body"
    by (simp add: skip_ws_def json_space_def)
  show ?thesis
    using sb nb pm by (simp only: parse_value.simps Let_def so) simp
qed

lemma parse_value_stringify:
  "storable v \<Longrightarrow> ends_value rest \<Longrightarrow> 2 * length (JSON_stringify v @ rest) + 1 \<le> f \<Longrightarrow>
   parse_value f (JSON_stringify v @ rest) = Some (v, rest)"
proof (induction v arbitrary: f rest)
  case JNull
  then obtain f' where "f = Suc f'" by (cases f) auto
  then show ?case by (simp only: JSON_stringify.simps parse_value_null)
next
  case (JBool b)
  then obtain f' where "f = Suc f'" by (cases f) auto
  then show ?case
    by (cases b) (simp_all only: JSON_stringify.simps parse_value_true parse_value_false if_True
        if_False)
next
  case (JNumber m d)
  then obtain f' where f: "f = Suc f'" by (cases f) auto
  from JNumber.prems(1) have d: "d = 0" by simp
  show ?case
    using parse_value_number[OF JNumber.prems(2), of f' m]
    by (simp add: f d Number_toString_def)
next
  case (JString s)
  then obtain f' where "f = Suc f'" by (cases f) auto
  then show ?case by (simp only: JSON_stringify.simps parse_value_string)
next
  case (JArray vs)
  obtain f' where f: "f = Suc f'" using JArray.prems(3) by (cases f) auto
  show ?case
  proof (cases vs)
    case Nil
    show ?thesis by (simp add: Nil f skip_ws_def json_space_def)
  next
    case (Cons v0 vs')
    define body where
      "body = JSON_stringify v0 @ concat (map (\<lambda>y. '','' @ JSON_stringify y) vs') @ '']'' @ rest"
    have shape: "JSON_stringify (JArray vs) @ rest = CHR ''['' # body"
      unfolding Cons body_def by (rule stringify_array_Cons)
    have st: "\<And>v. v \<in> set vs \<Longrightarrow> storable v"
      using JArray.prems(1) by (simp add: list_all_iff)
    have pe: "parse_elements f' body = Some (v0 # vs', rest)"
      unfolding body_def
    proof (rule parse_elements_text)
      fix v f rest
      assume "v \<in> set (v0 # vs')" "ends_value rest" "2 * length (JSON_stringify v @ rest) + 1 \<le> f"
      then show "parse_value f (JSON_stringify v @ rest) = Some (v, rest)"
        using JArray.IH st by (simp add: Cons)
    next
      show "2 * length (JSON_stringify v0 @ concat (map (\<lambda>y. '','' @ JSON_stringify y) vs')
          @ '']'' @ rest) + 2 \<le> f'"
        using JArray.prems(3) unfolding shape by (simp add: f body_def)
    qed
    obtain c cs where c: "JSON_stringify v0 = c # cs" "\<not> json_space c" "c \<noteq> CHR '']''"
      using stringify_first [of v0] st by (auto simp: Cons)
    have "body = c # (cs @ concat (map (\<lambda>y. '','' @ JSON_stringify y) vs') @ '']'' @ rest)"
      by (simp add: body_def c)
    from parse_value_array[OF this c(2,3) pe]
    have "parse_value (Suc f') (CHR ''['' # body) = Some (JArray vs, rest)"
      by (simp only: Cons)
    then show ?thesis unfolding shape f .
  qed
next
  case (JObject ms)
  obtain f' where f: "f = Suc f'" using JObject.prems(3) by (cases f) auto
  have keys: "distinct (map fst ms)" "list_all (\<lambda>m. \<not> is_index (fst m)) ms"
    and st: "\<And>m. m \<in> set ms \<Longrightarrow> storable (snd m)"
    using JObject.prems(1) by (auto simp: list_all_iff)
  show ?case
  proof (cases ms)
    case Nil
    show ?thesis by (simp add: Nil f skip_ws_def json_space_def)
  next
    case (Cons m0 ms')
    define body where
      "body = member_text m0 @ concat (map (\<lambda>y. '','' @ member_text y) ms') @ ''}'' @ rest"
    have shape: "JSON_stringify (JObject ms) @ rest = CHR ''{'' # body"
      unfolding Cons body_def by (rule stringify_object_Cons)
    have pm: "parse_members f' body = Some (m0 # ms', rest)"
      unfolding body_def
    proof (rule parse_members_text)
      fix m f rest
      assume "m \<in> set (m0 # ms')" "ends_value rest"
        "2 * length (JSON_stringify (snd m) @ rest) + 1 \<le> f"
      moreover have "snd m \<in> Basic_BNFs.snds m" by (cases m) simp
      ultimately show "parse_value f (JSON_stringify (snd m) @ rest) = Some (snd m, rest)"
        by (intro JObject.IH [of m "snd m"] st) (simp_all add: Cons)
    next
      show "2 * length (member_text m0 @ concat (map (\<lambda>y. '','' @ member_text y) ms')
          @ ''}'' @ rest) + 2 \<le> f'"
        using JObject.prems(3) unfolding shape by (simp add: f body_def)
    qed
    have "body = CHR 0x22 # (concat (map escape_char (fst m0)) @ CHR 0x22 # '':'' @
        JSON_stringify (snd m0) @ concat (map (\<lambda>y. '','' @ member_text y) ms') @ ''}'' @ rest)"
      by (simp add: body_def member_text_def quote_def)
    from parse_value_object[OF this pm] have
      "parse_value (Suc f') (CHR ''{'' # body) = Some (object_of ms, rest)"
      by (simp only: Cons)
    then have "parse_value (Suc f') (CHR ''{'' # body) = Some (JObject ms, rest)"
      by (simp only: object_of_storable[OF keys])
    then show ?thesis unfolding shape f .
  qed
qed

lemma JSON_parse_stringify:
  assumes "storable v"
  shows "JSON_parse (JSON_stringify v) = Some v"
proof -
  have "parse_value (2 * length (JSON_stringify v) + 2) (JSON_stringify v @ []) = Some (v, [])"
    using assms by (intro parse_value_stringify) (simp_all add: ends_value_def)
  then show ?thesis by (simp add: JSON_parse_def skip_ws_def)
qed

lemma stringify_nonempty: "storable v \<Longrightarrow> JSON_stringify v \<noteq> []"
  using stringify_first [of v] by auto

subsection \<open>The stored collections\<close>

lemma key_not_index:
  "\<not> is_index ''id''" "\<not> is_index ''label''" "\<not> is_index ''value''" "\<not> is_index ''createdAt''"
  "\<not> is_index ''recordId''" "\<not> is_index ''command''" "\<not> is_index ''output''"
  "\<not> is_index ''startedAt''"
  by (simp_all add: is_index_def is_digit_def)

lemma storable_RecordItem: "storable (json_of_RecordItem r)"
  by (cases "r_label r") (simp_all add: json_of_RecordItem_def key_not_index)

lemma storable_CommandRun: "storable (json_of_CommandRun c)"
  by (cases "c_recordId c") (simp_all add: json_of_CommandRun_def key_not_index)

lemma storable_records: "storable (json_of_records rs)"
  by (simp add: json_of_records_def list_all_iff storable_RecordItem)

lemma storable_commands: "storable (json_of_commands cs)"
  by (simp add: json_of_commands_def list_all_iff storable_CommandRun)

lemma load_save_storable:
  assumes "storable v"
  shows "load JSON_parse (save JSON_stringify key v ls) key = v"
  using JSON_parse_stringify[OF assms] stringify_nonempty[OF assms]
  by (simp add: load_def save_def)

lemma load_other_key:
  "key' \<noteq> key \<Longrightarrow> load parse (save stringify key v ls) key' = load parse ls key'"
  by (simp add: load_def save_def)

lemma inj_json_of_RecordItem: "json_of_RecordItem r' = json_of_RecordItem r \<Longrightarrow> r' = r"
  by (cases r; cases r') (auto simp: json_of_RecordItem_def split: option.splits)

lemma inj_json_of_CommandRun: "json_of_CommandRun c' = json_of_CommandRun c \<Longrightarrow> c' = c"
  by (cases c; cases c') (auto simp: json_of_CommandRun_def split: option.splits)

lemma inj_json_of_records: "json_of_records rs' = json_of_records rs \<Longrightarrow> rs' = rs"
proof -
  have "inj json_of_RecordItem" by (rule injI) (rule inj_json_of_RecordItem)
  then show "json_of_records rs' = json_of_records rs \<Longrightarrow> rs' = rs"
    by (simp add: json_of_records_def inj_map_eq_map)
qed

lemma inj_json_of_commands: "json_of_commands cs' = json_of_commands cs \<Longrightarrow> cs' = cs"
proof -
  have "inj json_of_CommandRun" by (rule injI) (rule inj_json_of_CommandRun)
  then show "json_of_commands cs' = json_of_commands cs \<Longrightarrow> cs' = cs"
    by (simp add: json_of_commands_def inj_map_eq_map)
qed

text \<open>
  Claim C8, as amended. \<open>load\<close> is total. It returns the empty array when nothing is
  stored under the key, when the stored text is empty, and when the text does not parse.
  A text that parses is returned as parsed, whatever its shape. After the state has been
  saved, loading either key gives back the value of the collection saved under it, for
  every state; equal values are equal collections. The same holds for every value of
  integers, strings, booleans, null, arrays and objects with distinct non-index keys.
\<close>

theorem load_save:
  "(ls key = None \<or> ls key = Some [] \<longrightarrow> load parse ls key = JArray []) \<and>
   (ls key = Some raw \<and> parse raw = None \<longrightarrow> load parse ls key = JArray []) \<and>
   (ls key = Some raw \<and> raw \<noteq> [] \<and> parse raw = Some v \<longrightarrow> load parse ls key = v) \<and>
   load JSON_parse (save_app st ls) LS_RECORDS = json_of_records (records st) \<and>
   load JSON_parse (save_app st ls) LS_COMMANDS = json_of_commands (commands st) \<and>
   (json_of_records rs = json_of_records (records st) \<longrightarrow> rs = records st) \<and>
   (json_of_commands cs = json_of_commands (commands st) \<longrightarrow> cs = commands st) \<and>
   (storable w \<longrightarrow> load JSON_parse (save JSON_stringify key w ls) key = w)"
proof (intro conjI impI)
  assume "ls key = None \<or> ls key = Some []"
  then show "load parse ls key = JArray []" by (auto simp: load_def)
next
  assume "ls key = Some raw \<and> parse raw = None"
  then show "load parse ls key = JArray []" by (simp add: load_def)
next
  assume "ls key = Some raw \<and> raw \<noteq> [] \<and> parse raw = Some v"
  then show "load parse ls key = v" by (simp add: load_def)
next
  have ne: "LS_RECORDS \<noteq> LS_COMMANDS" by (simp add: LS_RECORDS_def LS_COMMANDS_def)
  have "load JSON_parse (save_app st ls) LS_RECORDS =
      load JSON_parse (save JSON_stringify LS_RECORDS (json_of_records (records st)) ls) LS_RECORDS"
    unfolding save_app_def using ne by (intro load_other_key)
  also have "\<dots> = json_of_records (records st)"
    by (rule load_save_storable) (rule storable_records)
  finally show "load JSON_parse (save_app st ls) LS_RECORDS = json_of_records (records st)" .
next
  show "load JSON_parse (save_app st ls) LS_COMMANDS = json_of_commands (commands st)"
    unfolding save_app_def by (rule load_save_storable) (rule storable_commands)
next
  assume "json_of_records rs = json_of_records (records st)"
  then show "rs = records st" by (rule inj_json_of_records)
next
  assume "json_of_commands cs = json_of_commands (commands st)"
  then show "cs = commands st" by (rule inj_json_of_commands)
next
  assume "storable w"
  then show "load JSON_parse (save JSON_stringify key w ls) key = w" by (rule load_save_storable)
qed

theorem load_save_witness:
  "load JSON_parse Map.empty LS_RECORDS = JArray [] \<and>
   load JSON_parse [LS_RECORDS \<mapsto> ''{oops''] LS_RECORDS = JArray [] \<and>
   load JSON_parse [LS_COMMANDS \<mapsto> ''[]''] LS_COMMANDS = JArray [] \<and>
   load JSON_parse (save_app checked_state Map.empty) LS_RECORDS =
     json_of_records [record_b, record_a] \<and>
   load JSON_parse (save_app checked_state Map.empty) LS_COMMANDS =
     json_of_commands (commands checked_state) \<and>
   JSON_parse (JSON_stringify (json_of_commands (commands checked_state))) =
     Some (json_of_commands (commands checked_state)) \<and>
   load JSON_parse (save JSON_stringify LS_RECORDS (JArray [JNumber 1 0, JString ''a'']) Map.empty)
     LS_RECORDS = JArray [JNumber 1 0, JString ''a'']"
proof -
  note inst = load_save [where parse = JSON_parse and st = checked_state
      and rs = "records checked_state" and cs = "commands checked_state"
      and w = "JArray [JNumber 1 0, JString ''a'']"]
  have p1: "JSON_parse ''{oops'' = None" by code_simp
  have p2: "JSON_parse ''[]'' = Some (JArray [])" by code_simp
  have recs: "records checked_state = [record_b, record_a]"
    by (simp add: checked_state_def runCommand_def example_state_def)
  have a: "load JSON_parse Map.empty LS_RECORDS = JArray []"
    using inst [of Map.empty LS_RECORDS "[]" JNull] by simp
  have b: "load JSON_parse [LS_RECORDS \<mapsto> ''{oops''] LS_RECORDS = JArray []"
    using inst [of "[LS_RECORDS \<mapsto> ''{oops'']" LS_RECORDS "''{oops''" JNull] p1 by simp
  have c: "load JSON_parse [LS_COMMANDS \<mapsto> ''[]''] LS_COMMANDS = JArray []"
    using inst [of "[LS_COMMANDS \<mapsto> ''[]'']" LS_COMMANDS "''[]''" "JArray []"] p2 by simp
  have d: "load JSON_parse (save_app checked_state Map.empty) LS_RECORDS =
      json_of_records [record_b, record_a]"
    using inst [of Map.empty LS_RECORDS "[]" JNull] recs by simp
  have e: "load JSON_parse (save_app checked_state Map.empty) LS_COMMANDS =
      json_of_commands (commands checked_state)"
    using inst [of Map.empty LS_RECORDS "[]" JNull] by blast
  have f: "JSON_parse (JSON_stringify (json_of_commands (commands checked_state))) =
      Some (json_of_commands (commands checked_state))"
    by code_simp
  have st: "storable (JArray [JNumber 1 0, JString ''a''])" by simp
  have g: "load JSON_parse
      (save JSON_stringify LS_RECORDS (JArray [JNumber 1 0, JString ''a'']) Map.empty)
      LS_RECORDS = JArray [JNumber 1 0, JString ''a'']"
    using inst [of Map.empty LS_RECORDS "[]" JNull] st by blast
  from a b c d e f g show ?thesis by blast
qed

text \<open>
  Claim C8 as first stated says that a stored value that fails to parse as the expected
  shape loads as the empty collection. A stored array of two numbers, which is no
  collection of records, loads as that array.
\<close>

theorem load_unvalidated_counterexample:
  "load JSON_parse [LS_RECORDS \<mapsto> ''[1,2]''] LS_RECORDS = JArray [JNumber 1 0, JNumber 2 0]"
proof -
  have "JSON_parse ''[1,2]'' = Some (JArray [JNumber 1 0, JNumber 2 0])" by code_simp
  then show ?thesis by (simp add: load_def)
qed

end
